theory Spec2Isabelle
  imports Complex_Main "HOL-Library.Word" "HOL-Library.Multiset"
begin

unbundle bit_operations_syntax

section \<open>Constants of defs.h\<close>

definition C_SUSTAIN :: int where "C_SUSTAIN = 64"
definition C_ALL_SOUND_OFF :: int where "C_ALL_SOUND_OFF = 120"
definition C_ALL_NOTES_OFF :: int where "C_ALL_NOTES_OFF = 123"
definition M_TEMPO :: int where "M_TEMPO = 0x51"
definition ALL_TRACKS :: int where "ALL_TRACKS = - 1"
definition DEV_DUMMY :: int where "DEV_DUMMY = - 1"
definition DEV_LOOPBACK :: int where "DEV_LOOPBACK = - 2"

type_synonym message_t = "8 word list"

section \<open>NoteMap (notemap.h)\<close>

text \<open>
  The key of the note map: device number, track number, MIDI channel and note number
  (\<open>-1\<close> for the pedal). The four fields are C++ \<open>int\<close>s that are only compared,
  never computed with, so they are modelled as \<open>int\<close>.
\<close>

datatype key_type = Key (k_devNum: int) (k_tk: int) (k_ch: int) (k_n: int)

definition lessp :: "key_type \<Rightarrow> key_type \<Rightarrow> bool" where
  "lessp m1 m2 \<longleftrightarrow>
     (k_devNum m1 < k_devNum m2 \<or>
      (k_devNum m1 = k_devNum m2 \<and>
       (k_tk m1 < k_tk m2 \<or>
        (k_tk m1 = k_tk m2 \<and>
         (k_ch m1 < k_ch m2 \<or>
          (k_ch m1 = k_ch m2 \<and> k_n m1 < k_n m2))))))"

text \<open>
  \<open>std::map<key_type, int, lessp>\<close> is modelled by the list of its entries in
  iteration order (ascending under \<open>lessp\<close>); the mapped value is the pile count.
  An iterator is a position in that list, \<open>end()\<close> being \<open>None\<close>.
\<close>

type_synonym note_map = "(key_type \<times> int) list"

text \<open>\<open>std::map::insert\<close>: adds the entry at its place in the order unless the key is
  already present, in which case the map is left as it is.\<close>

fun insert_nm :: "key_type \<Rightarrow> int \<Rightarrow> note_map \<Rightarrow> note_map" where
  "insert_nm k c [] = [(k, c)]"
| "insert_nm k c ((k', c') # xs) =
     (if lessp k k' then (k, c) # (k', c') # xs
      else if lessp k' k then (k', c') # insert_nm k c xs
      else (k', c') # xs)"

text \<open>\<open>std::map::find\<close> followed by a read of \<open>->second\<close>.\<close>

definition find_nm :: "key_type \<Rightarrow> note_map \<Rightarrow> int option" where
  "find_nm k m = map_of m k"

text \<open>Assignment to \<open>i->second\<close> for the entry of key \<open>k\<close>.\<close>

definition assign_nm :: "key_type \<Rightarrow> int \<Rightarrow> note_map \<Rightarrow> note_map" where
  "assign_nm k c m = map (\<lambda>e. if fst e = k then (k, c) else e) m"

text \<open>\<open>std::map::erase(iterator)\<close> for the entry of key \<open>k\<close>.\<close>

definition erase_nm :: "key_type \<Rightarrow> note_map \<Rightarrow> note_map" where
  "erase_nm k m = filter (\<lambda>e. fst e \<noteq> k) m"

text \<open>The pile count of a key as the operations observe it: the mapped value, and 0 for
  a key that has no entry.\<close>

definition pile :: "note_map \<Rightarrow> key_type \<Rightarrow> int" where
  "pile m k = (case find_nm k m of None \<Rightarrow> 0 | Some c \<Rightarrow> c)"

text \<open>\<open>push\<close>: \<open>return noteMap.insert(value_type(key, 0)).first->second++\<close>.
  The result is the count before the increment, and the map after it.\<close>

definition push :: "note_map \<Rightarrow> int \<Rightarrow> int \<Rightarrow> int \<Rightarrow> int \<Rightarrow> int \<times> note_map" where
  "push m d t c n =
     (let key = Key d t c n;
          m1 = insert_nm key 0 m;
          old = pile m1 key
      in (old, assign_nm key (old + 1) m1))"

definition set_nm :: "note_map \<Rightarrow> int \<Rightarrow> int \<Rightarrow> int \<Rightarrow> int \<Rightarrow> int \<Rightarrow> note_map" where
  "set_nm m d t c n cnt = insert_nm (Key d t c n) cnt m"

definition pop :: "note_map \<Rightarrow> int \<Rightarrow> int \<Rightarrow> int \<Rightarrow> int \<Rightarrow> int \<times> note_map" where
  "pop m d t c n =
     (let key = Key d t c n
      in case find_nm key m of
           None \<Rightarrow> (0, m)
         | Some v \<Rightarrow>
             (let cnt = v - 1
              in if cnt = 0 then (cnt, erase_nm key m)
                 else (cnt, assign_nm key cnt m)))"

definition clear_all :: "note_map \<Rightarrow> note_map" where
  "clear_all m = []"

text \<open>
  The loops of \<open>clear(devNum, tk, ch)\<close> and \<open>clearAndCall\<close> walk the map once and
  remember two iterators: \<open>p1\<close>, the first matching entry, and \<open>p2\<close>, the first
  entry after \<open>p1\<close> that does not match. \<open>i\<close> is the position of the entry at hand.
\<close>

fun clear_loop ::
  "(key_type \<Rightarrow> bool) \<Rightarrow> note_map \<Rightarrow> nat \<Rightarrow> nat option \<Rightarrow> nat option \<Rightarrow> nat option \<times> nat option"
where
  "clear_loop P [] i p1 p2 = (p1, p2)"
| "clear_loop P (e # es) i p1 p2 =
     (if P (fst e)
      then clear_loop P es (Suc i) (if p1 = None then Some i else p1) p2
      else clear_loop P es (Suc i) p1 (if p1 \<noteq> None \<and> p2 = None then Some i else p2))"

text \<open>\<open>noteMap.erase(p1, p2)\<close>: removes the entries from \<open>p1\<close> up to, not including,
  \<open>p2\<close>. When \<open>p1\<close> is \<open>end()\<close>, so is \<open>p2\<close>, and nothing is removed.\<close>

definition erase_range :: "note_map \<Rightarrow> nat option \<times> nat option \<Rightarrow> note_map" where
  "erase_range m p =
     (case fst p of
        None \<Rightarrow> m
      | Some a \<Rightarrow> (case snd p of None \<Rightarrow> take a m | Some b \<Rightarrow> take a m @ drop b m))"

definition clear_match :: "int \<Rightarrow> int \<Rightarrow> int \<Rightarrow> key_type \<Rightarrow> bool" where
  "clear_match d t c k \<longleftrightarrow> k_devNum k = d \<and> k_tk k = t \<and> k_ch k = c"

definition clear_prefix :: "note_map \<Rightarrow> int \<Rightarrow> int \<Rightarrow> int \<Rightarrow> note_map" where
  "clear_prefix m d t c = erase_range m (clear_loop (clear_match d t c) m 0 None None)"

definition call_match :: "int \<Rightarrow> int \<Rightarrow> key_type \<Rightarrow> bool" where
  "call_match d t k \<longleftrightarrow> k_devNum k = d \<and> (t = ALL_TRACKS \<or> k_tk k = t)"

text \<open>The loop of \<open>clearAndCall\<close> also calls \<open>func(devNum, tk, ch, n, count)\<close> on every
  matching entry; the callback acts on the state \<open>w\<close> outside the map.\<close>

fun clearAndCall_loop ::
  "int \<Rightarrow> int \<Rightarrow> (int \<Rightarrow> int \<Rightarrow> int \<Rightarrow> int \<Rightarrow> int \<Rightarrow> 'w \<Rightarrow> 'w) \<Rightarrow> note_map \<Rightarrow> nat
     \<Rightarrow> nat option \<Rightarrow> nat option \<Rightarrow> 'w \<Rightarrow> (nat option \<times> nat option) \<times> 'w"
where
  "clearAndCall_loop d t func [] i p1 p2 w = ((p1, p2), w)"
| "clearAndCall_loop d t func (e # es) i p1 p2 w =
     (if k_devNum (fst e) = d \<and> (t = ALL_TRACKS \<or> k_tk (fst e) = t)
      then clearAndCall_loop d t func es (Suc i) (if p1 = None then Some i else p1) p2
             (func d t (k_ch (fst e)) (k_n (fst e)) (snd e) w)
      else clearAndCall_loop d t func es (Suc i) p1
             (if p1 \<noteq> None \<and> p2 = None then Some i else p2) w)"

definition clearAndCall ::
  "note_map \<Rightarrow> int \<Rightarrow> int \<Rightarrow> (int \<Rightarrow> int \<Rightarrow> int \<Rightarrow> int \<Rightarrow> int \<Rightarrow> 'w \<Rightarrow> 'w) \<Rightarrow> 'w \<Rightarrow> note_map \<times> 'w"
where
  "clearAndCall m d t func w =
     (let r = clearAndCall_loop d t func m 0 None None w
      in (erase_range m (fst r), snd r))"


text \<open>
  The states a note map can reach from the empty map by its operations, with \<open>set\<close>
  called with count 1 as the scheduler calls it. A pile count is a C++ \<open>int\<close>;
  incrementing a pile that stands at \<open>INT_MAX\<close> is undefined in C++, so \<open>push\<close> is a
  step only below that bound. The entries a \<open>clearAndCall\<close> leaves do not depend on
  the callback, which cannot reach the map it is called from.
\<close>

inductive reachable :: "note_map \<Rightarrow> bool" where
  reach_empty: "reachable []"
| reach_push:
    "reachable m \<Longrightarrow> pile m (Key d t c n) < 2147483647 \<Longrightarrow> reachable (snd (push m d t c n))"
| reach_pop: "reachable m \<Longrightarrow> reachable (snd (pop m d t c n))"
| reach_set: "reachable m \<Longrightarrow> reachable (set_nm m d t c n 1)"
| reach_clear: "reachable m \<Longrightarrow> reachable (clear_all m)"
| reach_clear_prefix: "reachable m \<Longrightarrow> reachable (clear_prefix m d t c)"
| reach_clearAndCall:
    "reachable m \<Longrightarrow>
     reachable (fst (clearAndCall m d t
                  (func :: int \<Rightarrow> int \<Rightarrow> int \<Rightarrow> int \<Rightarrow> int \<Rightarrow> unit \<Rightarrow> unit) w))"

definition pos_counts :: "note_map \<Rightarrow> bool" where
  "pos_counts m \<longleftrightarrow> (\<forall>e \<in> set m. 0 < snd e)"

definition nm_sorted :: "note_map \<Rightarrow> bool" where
  "nm_sorted m \<longleftrightarrow> sorted_wrt lessp (map fst m)"

section \<open>Values of type double\<close>

text \<open>
  A C++ \<open>double\<close> is an IEEE 754 value: a finite number, one of the two zeros, one of
  the two infinities, or a NaN. The model keeps these apart and gives the special values
  the results IEEE 754 prescribes. On finite numbers the arithmetic is that of the reals:
  rounding, overflow and underflow are left out; the rounding of the two tempo
  conversions is added in \<open>ticksToMsecs_fl\<close> and \<open>msecsToTicks_fl\<close> below.
  \<open>Fin 0\<close> is the positive zero.
\<close>

datatype double = Fin real | NegZero | PInf | NInf | NaN

definition isnan :: "double \<Rightarrow> bool" where
  "isnan x \<longleftrightarrow> x = NaN"

definition isinf :: "double \<Rightarrow> bool" where
  "isinf x \<longleftrightarrow> x = PInf \<or> x = NInf"

definition isfinite :: "double \<Rightarrow> bool" where
  "isfinite x \<longleftrightarrow> \<not> isnan x \<and> \<not> isinf x"

fun sign_bit :: "double \<Rightarrow> bool" where
  "sign_bit (Fin r) = (r < 0)"
| "sign_bit NegZero = True"
| "sign_bit PInf = False"
| "sign_bit NInf = True"
| "sign_bit NaN = False"

text \<open>The number a finite double stands for (0 for both zeros).\<close>

fun dval :: "double \<Rightarrow> real" where
  "dval (Fin r) = r"
| "dval x = 0"

text \<open>The rank of a value on the extended number line: below, among or above the finite
  numbers.\<close>

fun drank :: "double \<Rightarrow> int" where
  "drank NInf = - 1"
| "drank PInf = 1"
| "drank x = 0"

definition signed_zero :: "bool \<Rightarrow> double" where
  "signed_zero s = (if s then NegZero else Fin 0)"

definition signed_inf :: "bool \<Rightarrow> double" where
  "signed_inf s = (if s then NInf else PInf)"

definition finite_result :: "bool \<Rightarrow> real \<Rightarrow> double" where
  "finite_result s r = (if r = 0 then signed_zero s else Fin r)"

fun dneg :: "double \<Rightarrow> double" where
  "dneg (Fin r) = (if r = 0 then NegZero else Fin (- r))"
| "dneg NegZero = Fin 0"
| "dneg PInf = NInf"
| "dneg NInf = PInf"
| "dneg NaN = NaN"

text \<open>Addition. A sum that is exactly zero is the negative zero only when both terms
  are negative zeros.\<close>

definition dadd :: "double \<Rightarrow> double \<Rightarrow> double" where
  "dadd x y =
     (if isnan x \<or> isnan y then NaN
      else if isinf x then (if isinf y \<and> x \<noteq> y then NaN else x)
      else if isinf y then y
      else finite_result (sign_bit x \<and> sign_bit y) (dval x + dval y))"

definition dsub :: "double \<Rightarrow> double \<Rightarrow> double" where
  "dsub x y = dadd x (dneg y)"

definition dmul :: "double \<Rightarrow> double \<Rightarrow> double" where
  "dmul x y =
     (if isnan x \<or> isnan y then NaN
      else if isinf x \<or> isinf y
      then (if (isfinite x \<and> dval x = 0) \<or> (isfinite y \<and> dval y = 0) then NaN
            else signed_inf (sign_bit x \<noteq> sign_bit y))
      else finite_result (sign_bit x \<noteq> sign_bit y) (dval x * dval y))"

text \<open>Division. A nonzero number divided by a zero is an infinity whose sign is the
  product of the two signs; zero by zero and infinity by infinity are NaN.\<close>

definition ddiv :: "double \<Rightarrow> double \<Rightarrow> double" where
  "ddiv x y =
     (if isnan x \<or> isnan y then NaN
      else if isinf x then (if isinf y then NaN else signed_inf (sign_bit x \<noteq> sign_bit y))
      else if isinf y then signed_zero (sign_bit x \<noteq> sign_bit y)
      else if dval y = 0
      then (if dval x = 0 then NaN else signed_inf (sign_bit x \<noteq> sign_bit y))
      else finite_result (sign_bit x \<noteq> sign_bit y) (dval x / dval y))"

text \<open>Comparisons: every comparison with a NaN is false, the two zeros are equal.\<close>

definition dless :: "double \<Rightarrow> double \<Rightarrow> bool" where
  "dless x y \<longleftrightarrow>
     \<not> isnan x \<and> \<not> isnan y \<and> (drank x < drank y \<or> (drank x = drank y \<and> dval x < dval y))"

definition deq :: "double \<Rightarrow> double \<Rightarrow> bool" where
  "deq x y \<longleftrightarrow> \<not> isnan x \<and> \<not> isnan y \<and> drank x = drank y \<and> dval x = dval y"

definition dle :: "double \<Rightarrow> double \<Rightarrow> bool" where
  "dle x y \<longleftrightarrow>
     \<not> isnan x \<and> \<not> isnan y \<and> (drank x < drank y \<or> (drank x = drank y \<and> dval x \<le> dval y))"

definition dgt :: "double \<Rightarrow> double \<Rightarrow> bool" where
  "dgt x y \<longleftrightarrow> dless y x"

text \<open>Conversion of an \<open>int\<close> to \<open>double\<close>.\<close>

definition double_of_int :: "int \<Rightarrow> double" where
  "double_of_int i = Fin (of_int i)"

section \<open>The output scheduler (midiout.cpp)\<close>

text \<open>\<open>SysDep::midimsg_t\<close> of sysdep.h.\<close>

record midimsg_t =
  msg :: message_t
  isSysEx :: bool

text \<open>
  \<open>mo_queue_elm\<close>. The wrap-around counter is a C++ \<open>int\<close> that is incremented without
  bound and compared through a difference; it is modelled as a 32-bit word, whose
  arithmetic wraps, read as a signed number where the code compares it with 0.
\<close>

record mo_queue_elm =
  q_devNum :: int
  q_time :: double
  q_count :: "32 word"
  q_msg :: message_t
  q_tk :: int

definition greater_elm :: "mo_queue_elm \<Rightarrow> mo_queue_elm \<Rightarrow> bool" where
  "greater_elm e1 e2 =
     (if deq (q_time e1) (q_time e2) then 0 < sint (q_count e1 - q_count e2)
      else dgt (q_time e1) (q_time e2))"

text \<open>\<open>mi_queue_elm\<close> of midiin.cpp, the element of the input FIFO.\<close>

record mi_queue_elm =
  i_devNum :: int
  i_time :: double
  i_msg :: message_t
  i_tk :: int

text \<open>
  The static variables of midiout.cpp, together with what the scheduler acts on outside
  the file: \<open>sent\<close> is the sequence of calls of \<open>SysDep::midi_send\<close> so far, each with
  the number of the device whose handle it was given, and \<open>miEventQueue\<close> is the input
  FIFO of midiin.cpp. An entry of \<open>midiOutHandles\<close> is true when the handle is not null.
\<close>

record mo_state =
  midiOutHandles :: "bool list"
  stopRequest :: bool
  tempoScaleChangeRequest :: bool
  cancelRequests :: "(int \<times> int) list"
  currentTempo :: double
  lastTempoChangeS :: double
  lastTempoChangeT :: double
  tempoScale :: double
  requestedTempoScale :: double
  retriggerNotes :: bool
  retriggerNotesChangeReq :: int
  currentCount :: "32 word"
  moEventQueue :: "mo_queue_elm list"
  retriggerNoteMap :: note_map
  cancelNoteMap :: note_map
  sent :: "(int \<times> midimsg_t) list"
  miEventQueue :: "mi_queue_elm list"

text \<open>The state after \<open>MidiOut::startup\<close>, before any device is opened.\<close>

definition startup :: mo_state where
  "startup =
     \<lparr> midiOutHandles = [], stopRequest = False, tempoScaleChangeRequest = False,
       cancelRequests = [], currentTempo = Fin 125, lastTempoChangeS = Fin 0,
       lastTempoChangeT = Fin 0, tempoScale = Fin 1, requestedTempoScale = Fin 0,
       retriggerNotes = True, retriggerNotesChangeReq = 0, currentCount = 0,
       moEventQueue = [], retriggerNoteMap = [], cancelNoteMap = [], sent = [],
       miEventQueue = [] \<rparr>"

definition midi_send :: "int \<Rightarrow> midimsg_t \<Rightarrow> mo_state \<Rightarrow> mo_state" where
  "midi_send devNum m st = st\<lparr>sent := sent st @ [(devNum, m)]\<rparr>"

definition MidiIn_enqueue :: "int \<Rightarrow> double \<Rightarrow> int \<Rightarrow> message_t \<Rightarrow> mo_state \<Rightarrow> mo_state" where
  "MidiIn_enqueue devNum ticks t m st =
     st\<lparr>miEventQueue := miEventQueue st @
           [\<lparr>i_devNum = devNum, i_time = ticks, i_msg = m, i_tk = t\<rparr>]\<rparr>"

subsection \<open>Tempo map\<close>

definition ticksToMsecs :: "mo_state \<Rightarrow> double \<Rightarrow> double" where
  "ticksToMsecs st ticks =
     dadd (ddiv (dmul (dsub ticks (lastTempoChangeT st)) (Fin 125))
                (dmul (currentTempo st) (tempoScale st)))
          (lastTempoChangeS st)"

definition msecsToTicks :: "mo_state \<Rightarrow> double \<Rightarrow> double" where
  "msecsToTicks st msecs =
     dadd (ddiv (dmul (dmul (dsub msecs (lastTempoChangeS st)) (currentTempo st))
                      (tempoScale st))
                (Fin 125))
          (lastTempoChangeT st)"

subsection \<open>The tempo map with rounding\<close>

text \<open>
  An IEEE 754 operation returns its exact result rounded to the nearest double: an exact
  result \<open>x\<close> that neither overflows nor underflows becomes \<open>x * (1 + e)\<close> with
  \<open>\<bar>e\<bar> \<le> 2 ^ (-53)\<close>. \<open>rnd e\<close> applies the relative error \<open>e\<close> to a finite value.
  \<open>ticksToMsecs_fl\<close> and \<open>msecsToTicks_fl\<close> are the two conversions with the relative
  error of each of their five operations as a parameter, in the order in which C++
  evaluates the expressions: \<open>((ticks - T) * 125.0) / (tempo * scale) + S\<close> and
  \<open>(((msecs - S) * tempo) * scale) / 125.0 + T\<close>.
\<close>

definition rnd :: "real \<Rightarrow> double \<Rightarrow> double" where
  "rnd e x = (case x of Fin r \<Rightarrow> Fin (r * (1 + e)) | _ \<Rightarrow> x)"

definition ticksToMsecs_fl ::
  "real \<Rightarrow> real \<Rightarrow> real \<Rightarrow> real \<Rightarrow> real \<Rightarrow> mo_state \<Rightarrow> double \<Rightarrow> double" where
  "ticksToMsecs_fl e1 e2 e3 e4 e5 st ticks =
     rnd e5 (dadd (rnd e4 (ddiv (rnd e2 (dmul (rnd e1 (dsub ticks (lastTempoChangeT st))) (Fin 125)))
                                (rnd e3 (dmul (currentTempo st) (tempoScale st)))))
                  (lastTempoChangeS st))"

definition msecsToTicks_fl ::
  "real \<Rightarrow> real \<Rightarrow> real \<Rightarrow> real \<Rightarrow> real \<Rightarrow> mo_state \<Rightarrow> double \<Rightarrow> double" where
  "msecsToTicks_fl e6 e7 e8 e9 e10 st msecs =
     rnd e10 (dadd (rnd e9 (ddiv (rnd e8 (dmul (rnd e7 (dmul (rnd e6 (dsub msecs (lastTempoChangeS st)))
                                                            (currentTempo st)))
                                              (tempoScale st)))
                                 (Fin 125)))
                   (lastTempoChangeT st))"

definition setTempoScale :: "double \<Rightarrow> mo_state \<Rightarrow> mo_state" where
  "setTempoScale scale st =
     st\<lparr>tempoScaleChangeRequest := True,
        requestedTempoScale := (if dless scale (double_of_int 0) then double_of_int 0 else scale)\<rparr>"

text \<open>The block of \<open>midiOutThreadBody\<close> that serves \<open>tempoScaleChangeRequest\<close>;
  \<open>now\<close> is the value \<open>SysDep::get_time()\<close> returns there.\<close>

definition applyTempoScaleChange :: "double \<Rightarrow> mo_state \<Rightarrow> mo_state" where
  "applyTempoScaleChange now st =
     (if tempoScaleChangeRequest st
      then st\<lparr>lastTempoChangeT :=
                 dadd (ddiv (dmul (dmul (dsub now (lastTempoChangeS st)) (currentTempo st))
                                  (tempoScale st))
                            (double_of_int 125))
                      (lastTempoChangeT st),
              lastTempoChangeS := now,
              tempoScale := requestedTempoScale st,
              tempoScaleChangeRequest := False\<rparr>
      else st)"

subsection \<open>Stopping and cancelling\<close>

text \<open>The loop \<open>for (k = 0; k < count; k++)\<close> of \<open>cancelFunc\<close>, by the number of rounds
  still to run. An assignment of an \<open>int\<close> to a byte of the message keeps its low 8 bits.\<close>

fun cancelFunc_loop :: "nat \<Rightarrow> int \<Rightarrow> int \<Rightarrow> int \<Rightarrow> mo_state \<Rightarrow> mo_state" where
  "cancelFunc_loop 0 devNum c n st = st"
| "cancelFunc_loop (Suc k) devNum c n st =
     (let st1 = midi_send devNum
                  \<lparr>msg = [word_of_int (0x90 + c), word_of_int n, 0], isSysEx = False\<rparr> st;
          st2 = (if retriggerNotes st1
                 then st1\<lparr>retriggerNoteMap := snd (pop (retriggerNoteMap st1) devNum 0 c n)\<rparr>
                 else st1)
      in cancelFunc_loop k devNum c n st2)"

definition cancelFunc :: "int \<Rightarrow> int \<Rightarrow> int \<Rightarrow> int \<Rightarrow> int \<Rightarrow> mo_state \<Rightarrow> mo_state" where
  "cancelFunc devNum t c n cnt st =
     (if n = - 1
      then midi_send devNum
             \<lparr>msg = [word_of_int (0xb0 + c), word_of_int C_SUSTAIN, 0], isSysEx = False\<rparr> st
      else cancelFunc_loop (nat cnt) devNum c n st)"

text \<open>One round of the loop over the 16 channels in \<open>doStopAll\<close>.\<close>

definition all_off_channel :: "int \<Rightarrow> nat \<Rightarrow> mo_state \<Rightarrow> mo_state" where
  "all_off_channel devNum c st =
     (let st1 = midi_send devNum
                  \<lparr>msg = [word_of_int (0xb0 + int c), word_of_int C_ALL_NOTES_OFF, 0],
                   isSysEx = False\<rparr> st;
          st2 = midi_send devNum
                  \<lparr>msg = [word_of_int (0xb0 + int c), word_of_int C_SUSTAIN, 0],
                   isSysEx = False\<rparr> st1
      in midi_send devNum
           \<lparr>msg = [word_of_int (0xb0 + int c), word_of_int C_ALL_SOUND_OFF, 0],
            isSysEx = False\<rparr> st2)"

text \<open>One round of the loop over the devices in \<open>doStopAll\<close>.\<close>

definition stop_device :: "nat \<Rightarrow> mo_state \<Rightarrow> mo_state" where
  "stop_device i st =
     (if midiOutHandles st ! i
      then (let r = clearAndCall (cancelNoteMap st) (int i) ALL_TRACKS cancelFunc st;
                st1 = (snd r)\<lparr>cancelNoteMap := fst r\<rparr>
            in fold (all_off_channel (int i)) [0..<16] st1)
      else st)"

definition doStopAll :: "mo_state \<Rightarrow> mo_state" where
  "doStopAll st =
     (let st1 = fold stop_device [0..<length (midiOutHandles st)] st
      in st1\<lparr>moEventQueue := [],
             retriggerNoteMap := clear_all (retriggerNoteMap st1),
             cancelNoteMap := clear_all (cancelNoteMap st1)\<rparr>)"

subsection \<open>The heap functions of the C++ standard library\<close>

text \<open>
  \<open>std::make_heap\<close>, \<open>std::push_heap\<close> and \<open>std::pop_heap\<close> belong to the C++ library,
  not to the program. They are modelled by the usual binary heap in a vector: the
  children of position \<open>i\<close> are at \<open>2 * i + 1\<close> and \<open>2 * i + 2\<close>, and no element is
  below its child in the order \<open>cmp\<close>.
\<close>

definition is_heap :: "('a \<Rightarrow> 'a \<Rightarrow> bool) \<Rightarrow> 'a list \<Rightarrow> bool" where
  "is_heap cmp xs \<longleftrightarrow>
     (\<forall>j. 0 < j \<and> j < length xs \<longrightarrow> \<not> cmp (xs ! ((j - 1) div 2)) (xs ! j))"

function sift_down :: "('a \<Rightarrow> 'a \<Rightarrow> bool) \<Rightarrow> 'a list \<Rightarrow> nat \<Rightarrow> 'a list" where
  "sift_down cmp xs i =
     (if 2 * i + 1 < length xs
      then (let c = (if 2 * i + 2 < length xs \<and> cmp (xs ! (2 * i + 1)) (xs ! (2 * i + 2))
                     then 2 * i + 2 else 2 * i + 1)
            in if cmp (xs ! i) (xs ! c)
               then sift_down cmp (xs[i := xs ! c, c := xs ! i]) c
               else xs)
      else xs)"
  by pat_completeness auto
termination
  by (relation "measure (\<lambda>(cmp, xs, i). length xs - i)") (auto split: if_splits)

declare sift_down.simps [simp del]

function sift_up :: "('a \<Rightarrow> 'a \<Rightarrow> bool) \<Rightarrow> 'a list \<Rightarrow> nat \<Rightarrow> 'a list" where
  "sift_up cmp xs i =
     (if 0 < i \<and> cmp (xs ! ((i - 1) div 2)) (xs ! i)
      then sift_up cmp (xs[(i - 1) div 2 := xs ! i, i := xs ! ((i - 1) div 2)]) ((i - 1) div 2)
      else xs)"
  by pat_completeness auto
termination
  by (relation "measure (\<lambda>(cmp, xs, i). i)") auto

declare sift_up.simps [simp del]

definition make_heap :: "('a \<Rightarrow> 'a \<Rightarrow> bool) \<Rightarrow> 'a list \<Rightarrow> 'a list" where
  "make_heap cmp xs = fold (\<lambda>i ys. sift_down cmp ys i) (rev [0..<length xs div 2]) xs"

text \<open>\<open>push_heap\<close> moves the last element of the vector to its place in the heap that the
  elements before it form.\<close>

definition push_heap :: "('a \<Rightarrow> 'a \<Rightarrow> bool) \<Rightarrow> 'a list \<Rightarrow> 'a list" where
  "push_heap cmp xs = (if xs = [] then xs else sift_up cmp xs (length xs - 1))"

text \<open>\<open>pop_heap\<close> moves the first element to the end of the vector and makes a heap of the
  elements before it.\<close>

definition pop_heap :: "('a \<Rightarrow> 'a \<Rightarrow> bool) \<Rightarrow> 'a list \<Rightarrow> 'a list" where
  "pop_heap cmp xs =
     (if length xs \<le> 1 then xs
      else sift_down cmp (last xs # tl (butlast xs)) 0 @ [hd xs])"

subsection \<open>doCancelMessages\<close>

definition cancel_match :: "int \<Rightarrow> int \<Rightarrow> mo_queue_elm \<Rightarrow> bool" where
  "cancel_match devNum t e \<longleftrightarrow> q_devNum e = devNum \<and> (t = ALL_TRACKS \<or> q_tk e = t)"

text \<open>The first inner loop: \<open>while (i <= j && !match(queue[i])) i++\<close>.\<close>

function skip_kept :: "('a \<Rightarrow> bool) \<Rightarrow> 'a list \<Rightarrow> int \<Rightarrow> int \<Rightarrow> int" where
  "skip_kept P q i j = (if i \<le> j \<and> \<not> P (q ! nat i) then skip_kept P q (i + 1) j else i)"
  by pat_completeness auto
termination
  by (relation "measure (\<lambda>(P, q, i, j). nat (j + 1 - i))") auto

text \<open>The second inner loop: \<open>while (i <= j && match(queue[j])) j--\<close>.\<close>

function skip_dropped :: "('a \<Rightarrow> bool) \<Rightarrow> 'a list \<Rightarrow> int \<Rightarrow> int \<Rightarrow> int" where
  "skip_dropped P q i j = (if i \<le> j \<and> P (q ! nat j) then skip_dropped P q i (j - 1) else j)"
  by pat_completeness auto
termination
  by (relation "measure (\<lambda>(P, q, i, j). nat (j + 1 - i))") auto

declare skip_kept.simps [simp del] skip_dropped.simps [simp del]

lemma skip_kept_bounds: "i \<le> skip_kept P q i j \<and> (i \<le> j + 1 \<longrightarrow> skip_kept P q i j \<le> j + 1)"
  by (induction P q i j rule: skip_kept.induct) (smt (verit) skip_kept.simps)

lemma skip_kept_stops:
  "skip_kept P q i j \<le> j \<Longrightarrow> P (q ! nat (skip_kept P q i j))"
  by (induction P q i j rule: skip_kept.induct) (smt (verit) skip_kept.simps)

lemma skip_dropped_bounds:
  "skip_dropped P q i j \<le> j \<and> (i \<le> j + 1 \<longrightarrow> i \<le> skip_dropped P q i j + 1)"
  by (induction P q i j rule: skip_dropped.induct) (smt (verit) skip_dropped.simps)

lemma skip_dropped_stops:
  "i \<le> skip_dropped P q i j \<Longrightarrow> \<not> P (q ! nat (skip_dropped P q i j))"
  by (induction P q i j rule: skip_dropped.induct) (smt (verit) skip_dropped.simps)

text \<open>The outer loop \<open>for (;;)\<close>: both inner loops, the exit test, the exchange of
  \<open>queue[i]\<close> and \<open>queue[j]\<close>. The result is the vector and the final \<open>i\<close>. The
  loops read the vector between \<open>i\<close> and \<open>j\<close> only; a call with bounds outside the
  vector, which the program never makes, has no result.\<close>

function partition_loop ::
  "('a \<Rightarrow> bool) \<Rightarrow> 'a list \<Rightarrow> int \<Rightarrow> int \<Rightarrow> ('a list \<times> int) option"
where
  "partition_loop P q i j =
     (if i < 0 \<or> int (length q) \<le> j then None
      else (let i' = skip_kept P q i j;
                j' = skip_dropped P q i' j
            in if i' > j' then Some (q, i')
               else partition_loop P (q[nat j' := q ! nat i', nat i' := q ! nat j']) i' j'))"
  by pat_completeness auto
termination
proof (relation "measure (\<lambda>(P, q, i, j). 2 * nat (j + 1 - i) + (if i \<le> j \<and> P (q ! nat i) then 1 else 0))",
       goal_cases)
  case 1
  show ?case by simp
next
  case (2 P q i j i' j')
  have b1: "i \<le> i'" unfolding 2(2) using skip_kept_bounds[of i P q j] by blast
  have b2: "j' \<le> j" unfolding 2(3) using skip_dropped_bounds[of P q i' j] by blast
  have le: "i' \<le> j'" using 2(4) by simp
  from le b2 have "skip_kept P q i j \<le> j" unfolding 2(2) by linarith
  then have Pi: "P (q ! nat i')" unfolding 2(2) by (rule skip_kept_stops)
  from le have "i' \<le> skip_dropped P q i' j" unfolding 2(3) .
  then have nPj: "\<not> P (q ! nat j')" unfolding 2(3) by (rule skip_dropped_stops)
  define q' where "q' = q[nat j' := q ! nat i', nat i' := q ! nat j']"
  have rng: "nat i' < length q" using 2(1) b1 b2 le by linarith
  have goal: "2 * nat (j' + 1 - i') + (if i' \<le> j' \<and> P (q' ! nat i') then 1 else 0)
            < 2 * nat (j + 1 - i) + (if i \<le> j \<and> P (q ! nat i) then 1 else (0::nat))"
  proof (cases "i' = i \<and> j' = j")
    case True
    have "\<not> P (q' ! nat i')" using nPj rng by (simp add: q'_def)
    with True Pi le show ?thesis by simp
  next
    case False
    with b1 b2 have "nat (j' + 1 - i') < nat (j + 1 - i)" using le by linarith
    then have "2 * nat (j' + 1 - i') + 1 < 2 * nat (j + 1 - i)" by linarith
    moreover have "(if i' \<le> j' \<and> P (q' ! nat i') then 1 else 0) \<le> (1::nat)" by simp
    ultimately show ?thesis by linarith
  qed
  then show ?case by (simp add: q'_def)
qed

declare partition_loop.simps [simp del]

definition doCancelMessages :: "int \<Rightarrow> int \<Rightarrow> mo_state \<Rightarrow> mo_state option" where
  "doCancelMessages devNum t st =
     (case partition_loop (cancel_match devNum t) (moEventQueue st) 0
             (int (length (moEventQueue st)) - 1) of
        None \<Rightarrow> None
      | Some (q, i) \<Rightarrow>
          (let st1 = st\<lparr>moEventQueue := make_heap greater_elm (take (nat i) q)\<rparr>
           in if devNum \<ge> 0 \<and> devNum < int (length (midiOutHandles st1))
                 \<and> midiOutHandles st1 ! nat devNum
              then (let r = clearAndCall (cancelNoteMap st1) devNum t cancelFunc st1
                    in Some ((snd r)\<lparr>cancelNoteMap := fst r\<rparr>))
              else Some st1))"

subsection \<open>midiOutSendMessage\<close>

text \<open>
  The function reads \<open>m.msg[0]\<close>, and \<open>m.msg[1]\<close> and \<open>m.msg[2]\<close> where the status byte
  makes it look at them. A read past the end of the message is undefined in C++; the
  model has no result (\<open>None\<close>) there.
\<close>

definition midiOutSendMessage :: "int \<Rightarrow> int \<Rightarrow> midimsg_t \<Rightarrow> mo_state \<Rightarrow> mo_state option" where
  "midiOutSendMessage devNum t m st =
     (let bs = msg m in
      if length bs < 1 then None
      else
        (let c = uint (bs ! 0 AND 0xf); hi = bs ! 0 AND 0xf0 in
         if hi = 0x90 \<and> length bs < 3 then None
         else if (hi = 0x90 \<and> bs ! 2 = 0) \<or> hi = 0x80 then
           \<comment> \<open>note-off\<close>
           (if length bs < 2 then None
            else
              (let r = (if retriggerNotes st
                        then pop (retriggerNoteMap st) devNum 0 c (uint (bs ! 1))
                        else (0, retriggerNoteMap st));
                   no_output = (retriggerNotes st \<and> fst r \<ge> 1);
                   st1 = st\<lparr>retriggerNoteMap := snd r\<rparr>;
                   st2 = st1\<lparr>cancelNoteMap :=
                              snd (pop (cancelNoteMap st1) devNum t c (uint (bs ! 1)))\<rparr>
               in if no_output then Some st2 else Some (midi_send devNum m st2)))
         else if hi = 0x90 then
           \<comment> \<open>note-on\<close>
           (let r = (if retriggerNotes st
                     then push (retriggerNoteMap st) devNum 0 c (uint (bs ! 1))
                     else (0, retriggerNoteMap st));
                st1 = st\<lparr>retriggerNoteMap := snd r\<rparr>;
                st2 = (if retriggerNotes st \<and> fst r \<ge> 1
                       then midi_send devNum (m\<lparr>msg := bs[2 := 0]\<rparr>) st1
                       else st1);
                st3 = st2\<lparr>cancelNoteMap :=
                           snd (push (cancelNoteMap st2) devNum t c (uint (bs ! 1)))\<rparr>
            in Some (midi_send devNum m st3))
         else if hi = 0xb0 \<and> length bs < 2 then None
         else if hi = 0xb0 \<and> (uint (bs ! 1) = C_ALL_NOTES_OFF \<or> uint (bs ! 1) = C_ALL_SOUND_OFF) then
           (let st1 = (if retriggerNotes st
                       then st\<lparr>retriggerNoteMap := clear_prefix (retriggerNoteMap st) devNum 0 c\<rparr>
                       else st)
            in Some (midi_send devNum m st1))
         else if hi = 0xb0 \<and> uint (bs ! 1) = C_SUSTAIN then
           (if length bs < 3 then None
            else
              (let st1 = (if bs ! 2 = 0
                          then st\<lparr>cancelNoteMap := snd (pop (cancelNoteMap st) devNum t c (- 1))\<rparr>
                          else st\<lparr>cancelNoteMap := set_nm (cancelNoteMap st) devNum t c (- 1) 1\<rparr>)
               in Some (midi_send devNum m st1)))
         else Some (midi_send devNum m st)))"

subsection \<open>The dispatch loop of midiOutThreadBody\<close>

text \<open>
  The body of the loop \<open>while (!moEventQueue.empty() && moEventQueue[0]->time <= ticks)\<close>
  up to the removal of the element: what is done with the element \<open>qtop\<close> at the top of
  the queue. \<open>msecs\<close> and \<open>ticks\<close> are the local variables of the thread. Reading
  \<open>msg[0]\<close> of an empty message, and \<open>midiOutHandles[devNum]\<close> past the end of the
  vector, have no result.
\<close>

definition usecsPerBeat :: "message_t \<Rightarrow> int" where
  "usecsPerBeat bs = push_bit 16 (uint (bs ! 2)) + push_bit 8 (uint (bs ! 3)) + uint (bs ! 4)"

definition dispatch_one :: "double \<Rightarrow> double \<Rightarrow> mo_queue_elm \<Rightarrow> mo_state \<Rightarrow> mo_state option" where
  "dispatch_one msecs ticks qtop st =
     (if q_devNum qtop = DEV_LOOPBACK
      then Some (MidiIn_enqueue (q_devNum qtop) (q_time qtop) (q_tk qtop) (q_msg qtop) st)
      else if length (q_msg qtop) < 1 then None
      else if q_msg qtop ! 0 \<noteq> 0xff then
        (if q_devNum qtop \<ge> 0
         then (if int (length (midiOutHandles st)) \<le> q_devNum qtop then None
               else if midiOutHandles st ! nat (q_devNum qtop)
               then (let m = (if q_msg qtop ! 0 = 0xf0
                              then \<lparr>msg = tl (q_msg qtop), isSysEx = True\<rparr>
                              else \<lparr>msg = q_msg qtop, isSysEx = False\<rparr>)
                     in midiOutSendMessage (q_devNum qtop) (q_tk qtop) m st)
               else Some st)
         else Some st)
      else if length (q_msg qtop) \<ge> 5 \<and> uint (q_msg qtop ! 1) = M_TEMPO then
        Some (st\<lparr>lastTempoChangeS := msecs,
                 lastTempoChangeT := ticks,
                 currentTempo := ddiv (Fin 60000000) (double_of_int (usecsPerBeat (q_msg qtop)))\<rparr>)
      else Some st)"

lemma length_sift_down: "length (sift_down cmp xs i) = length xs"
  by (induction cmp xs i rule: sift_down.induct) (subst sift_down.simps, simp add: Let_def)

lemma length_pop_heap: "length (pop_heap cmp xs) = length xs"
  by (cases xs) (simp_all add: pop_heap_def length_sift_down)

lemma dispatch_one_queue:
  "dispatch_one msecs ticks qtop st = Some st' \<Longrightarrow> moEventQueue st' = moEventQueue st"
  by (auto simp: dispatch_one_def midiOutSendMessage_def MidiIn_enqueue_def midi_send_def Let_def
           split: if_splits)

function dispatch_loop :: "double \<Rightarrow> double \<Rightarrow> mo_state \<Rightarrow> mo_state option" where
  "dispatch_loop msecs ticks st =
     (if moEventQueue st \<noteq> [] \<and> dle (q_time (moEventQueue st ! 0)) ticks
      then (case dispatch_one msecs ticks (moEventQueue st ! 0) st of
              None \<Rightarrow> None
            | Some st' \<Rightarrow>
                dispatch_loop msecs ticks
                  (st'\<lparr>moEventQueue := butlast (pop_heap greater_elm (moEventQueue st'))\<rparr>))
      else Some st)"
  by pat_completeness auto

termination
proof (relation "measure (\<lambda>(msecs, ticks, st). length (moEventQueue st))", goal_cases)
  case 1
  show ?case by simp
next
  case (2 msecs ticks st st')
  then have "moEventQueue st' = moEventQueue st" and "moEventQueue st \<noteq> []"
    by (simp_all add: dispatch_one_queue)
  then show ?case by (simp add: length_pop_heap)
qed

declare dispatch_loop.simps [simp del]

text \<open>The elements the loop takes from the queue, in the order in which it takes them.\<close>

function dispatched :: "double \<Rightarrow> mo_queue_elm list \<Rightarrow> mo_queue_elm list" where
  "dispatched ticks q =
     (if q \<noteq> [] \<and> dle (q_time (q ! 0)) ticks
      then q ! 0 # dispatched ticks (butlast (pop_heap greater_elm q))
      else [])"
  by pat_completeness auto
termination
  by (relation "measure (\<lambda>(ticks, q). length q)") (auto simp: length_pop_heap)

declare dispatched.simps [simp del]

text \<open>The queue the loop leaves.\<close>

function undispatched :: "double \<Rightarrow> mo_queue_elm list \<Rightarrow> mo_queue_elm list" where
  "undispatched ticks q =
     (if q \<noteq> [] \<and> dle (q_time (q ! 0)) ticks
      then undispatched ticks (butlast (pop_heap greater_elm q))
      else q)"
  by pat_completeness auto
termination
  by (relation "measure (\<lambda>(ticks, q). length q)") (auto simp: length_pop_heap)

declare undispatched.simps [simp del]

subsection \<open>Devices and the interface of MidiOut\<close>

text \<open>\<open>num_devs\<close> is what \<open>SysDep::midiout_get_num_devs\<close> returns and \<open>opened\<close> tells
  whether \<open>SysDep::midiout_open\<close> returns a handle. The result is the error flag and
  the state.\<close>

definition openDevice :: "int \<Rightarrow> int \<Rightarrow> bool \<Rightarrow> mo_state \<Rightarrow> bool \<times> mo_state" where
  "openDevice devNum num_devs opened st =
     (if devNum < 0 then (False, st)
      else if devNum \<ge> num_devs then (True, st)
      else
        (let hs = (if int (length (midiOutHandles st)) \<le> devNum
                   then midiOutHandles st @
                        replicate (nat (devNum + 1) - length (midiOutHandles st)) False
                   else midiOutHandles st)
         in if \<not> hs ! nat devNum
            then (if opened then (False, st\<lparr>midiOutHandles := hs[nat devNum := True]\<rparr>)
                  else (True, st\<lparr>midiOutHandles := hs\<rparr>))
            else (False, st\<lparr>midiOutHandles := hs\<rparr>)))"

definition closeDevice :: "int \<Rightarrow> mo_state \<Rightarrow> mo_state" where
  "closeDevice devNum st =
     (if devNum < 0 then st
      else if devNum < int (length (midiOutHandles st)) \<and> midiOutHandles st ! nat devNum
      then st\<lparr>midiOutHandles := (midiOutHandles st)[nat devNum := False]\<rparr>
      else st)"

definition isOpenedDevice :: "int \<Rightarrow> mo_state \<Rightarrow> bool" where
  "isOpenedDevice devNum st \<longleftrightarrow>
     (if devNum < 0 then True
      else devNum < int (length (midiOutHandles st)) \<and> midiOutHandles st ! nat devNum)"

definition stopAll :: "mo_state \<Rightarrow> mo_state" where
  "stopAll st = st\<lparr>stopRequest := True\<rparr>"

definition cancelMessages :: "int \<Rightarrow> int \<Rightarrow> mo_state \<Rightarrow> mo_state" where
  "cancelMessages devNum t st = st\<lparr>cancelRequests := cancelRequests st @ [(devNum, t)]\<rparr>"

definition setRetrigger :: "bool \<Rightarrow> mo_state \<Rightarrow> mo_state" where
  "setRetrigger enable st =
     st\<lparr>stopRequest := True, retriggerNotesChangeReq := (if enable then 1 else 0) + 1\<rparr>"

text \<open>The constructor of \<open>mo_queue_elm\<close> draws the counter from the static
  \<open>currentCount\<close>; \<open>enqueue\<close> appends the element and restores the heap.\<close>

definition enqueue :: "mo_queue_elm \<Rightarrow> mo_state \<Rightarrow> mo_state" where
  "enqueue q st = st\<lparr>moEventQueue := push_heap greater_elm (moEventQueue st @ [q])\<rparr>"

definition queueMessage :: "int \<Rightarrow> double \<Rightarrow> int \<Rightarrow> message_t \<Rightarrow> mo_state \<Rightarrow> bool \<times> mo_state" where
  "queueMessage devNum ticks t m st =
     (if length m < 1 then (True, st)
      else if devNum \<ge> 0 \<and>
              (devNum \<ge> int (length (midiOutHandles st)) \<or> \<not> midiOutHandles st ! nat devNum)
      then (True, st)
      else
        (let q = \<lparr>q_devNum = devNum, q_time = ticks, q_count = currentCount st,
                  q_msg = m, q_tk = t\<rparr>;
             st1 = st\<lparr>currentCount := currentCount st + 1\<rparr>
         in (False, enqueue q st1)))"

section \<open>The facade (cmidiio.cpp)\<close>

text \<open>The table of \<open>midimsg_size\<close> and the function itself; \<open>status >> 4\<close> and \<open>& 7\<close> on
  a non-negative \<open>int\<close>.\<close>

definition midimsg_size_table :: "int list" where
  "midimsg_size_table = [3, 3, 3, 3, 2, 2, 3, 0]"

definition midimsg_size :: "int \<Rightarrow> int" where
  "midimsg_size status =
     (let len = midimsg_size_table ! nat (drop_bit 4 status AND 7)
      in if len \<noteq> 0 then len
         else if status = 0xf0 then 0
         else if status = 0xf1 \<or> status = 0xf3 then 2
         else if status = 0xf2 then 3
         else 1)"

text \<open>The outcome of a call from Python: a return of \<open>None\<close>, or the exception that was
  set, with its message.\<close>

datatype py_result = Returned | ValueError string | RuntimeError string

definition takt_queue_message ::
  "int \<Rightarrow> double \<Rightarrow> int \<Rightarrow> message_t \<Rightarrow> mo_state \<Rightarrow> py_result \<times> mo_state"
where
  "takt_queue_message devNum ticks t m st =
     (if devNum \<noteq> DEV_LOOPBACK \<and>
         \<not> (length m > 0 \<and>
            ((m ! 0 \<ge> 0x80 \<and> m ! 0 < 0xf0 \<and> int (length m) = midimsg_size (uint (m ! 0)))
             \<or> m ! 0 = 0xf0 \<or> m ! 0 = 0xff))
      then (ValueError ''invalid MIDI (or meta) message'', st)
      else
        (let r = queueMessage devNum ticks t m st
         in if fst r then (RuntimeError ''device is not opened'', snd r)
            else (Returned, snd r)))"

section \<open>Notions used in the properties\<close>

definition swo_on :: "'a set \<Rightarrow> ('a \<Rightarrow> 'a \<Rightarrow> bool) \<Rightarrow> bool" where
  "swo_on S cmp \<longleftrightarrow>
     (\<forall>a\<in>S. \<forall>b\<in>S. cmp a b \<longrightarrow> \<not> cmp b a) \<and>
     (\<forall>a\<in>S. \<forall>b\<in>S. \<forall>c\<in>S. \<not> cmp a b \<and> \<not> cmp b c \<longrightarrow> \<not> cmp a c)"

definition heap_from :: "('a \<Rightarrow> 'a \<Rightarrow> bool) \<Rightarrow> nat \<Rightarrow> 'a list \<Rightarrow> bool" where
  "heap_from cmp lo xs \<longleftrightarrow>
     (\<forall>j. 0 < j \<and> j < length xs \<and> lo \<le> (j - 1) div 2 \<longrightarrow> \<not> cmp (xs ! ((j - 1) div 2)) (xs ! j))"

definition sift_pre :: "('a \<Rightarrow> 'a \<Rightarrow> bool) \<Rightarrow> nat \<Rightarrow> 'a list \<Rightarrow> nat \<Rightarrow> bool" where
  "sift_pre cmp lo xs i \<longleftrightarrow>
     (\<forall>j. 0 < j \<and> j < length xs \<and> lo \<le> (j - 1) div 2 \<and> (j - 1) div 2 \<noteq> i
          \<longrightarrow> \<not> cmp (xs ! ((j - 1) div 2)) (xs ! j)) \<and>
     (0 < i \<and> lo \<le> (i - 1) div 2 \<longrightarrow>
        (\<forall>c. c < length xs \<and> 0 < c \<and> (c - 1) div 2 = i \<longrightarrow> \<not> cmp (xs ! ((i - 1) div 2)) (xs ! c)))"

definition sift_up_pre :: "('a \<Rightarrow> 'a \<Rightarrow> bool) \<Rightarrow> 'a list \<Rightarrow> nat \<Rightarrow> bool" where
  "sift_up_pre cmp xs i \<longleftrightarrow>
     (\<forall>j. 0 < j \<and> j < length xs \<and> j \<noteq> i \<longrightarrow> \<not> cmp (xs ! ((j - 1) div 2)) (xs ! j)) \<and>
     (0 < i \<longrightarrow>
        (\<forall>c. c < length xs \<and> 0 < c \<and> (c - 1) div 2 = i \<longrightarrow> \<not> cmp (xs ! ((i - 1) div 2)) (xs ! c)))"

definition seq_no :: "32 word \<Rightarrow> mo_queue_elm \<Rightarrow> nat" where
  "seq_no c0 e = unat (q_count e - c0)"

definition window :: "32 word \<Rightarrow> mo_queue_elm list \<Rightarrow> bool" where
  "window c0 q \<longleftrightarrow> (\<forall>e \<in> set q. seq_no c0 e < 2 ^ 31)"

definition no_nan :: "mo_queue_elm list \<Rightarrow> bool" where
  "no_nan q \<longleftrightarrow> (\<forall>e \<in> set q. \<not> isnan (q_time e))"

definition dispatch_before :: "32 word \<Rightarrow> mo_queue_elm \<Rightarrow> mo_queue_elm \<Rightarrow> bool" where
  "dispatch_before c0 a b \<longleftrightarrow>
     dless (q_time a) (q_time b) \<or> (deq (q_time a) (q_time b) \<and> seq_no c0 a \<le> seq_no c0 b)"

fun dispatch_all :: "double \<Rightarrow> double \<Rightarrow> mo_queue_elm list \<Rightarrow> mo_state \<Rightarrow> mo_state option" where
  "dispatch_all msecs ticks [] st = Some st"
| "dispatch_all msecs ticks (e # es) st =
     (case dispatch_one msecs ticks e st of
        None \<Rightarrow> None
      | Some st' \<Rightarrow> dispatch_all msecs ticks es st')"

definition lessp_convex :: "(key_type \<Rightarrow> bool) \<Rightarrow> bool" where
  "lessp_convex P \<longleftrightarrow> (\<forall>a b c. lessp a b \<and> lessp b c \<and> P a \<and> P c \<longrightarrow> P b)"

definition note_off_msg :: "int \<Rightarrow> int \<Rightarrow> midimsg_t" where
  "note_off_msg c n = \<lparr>msg = [word_of_int (0x90 + c), word_of_int n, 0], isSysEx = False\<rparr>"

definition control_msg :: "int \<Rightarrow> int \<Rightarrow> midimsg_t" where
  "control_msg c ctl = \<lparr>msg = [word_of_int (0xb0 + c), word_of_int ctl, 0], isSysEx = False\<rparr>"

definition cancel_msgs :: "int \<Rightarrow> key_type \<times> int \<Rightarrow> (int \<times> midimsg_t) list" where
  "cancel_msgs d e =
     (if k_n (fst e) = - 1 then [(d, control_msg (k_ch (fst e)) C_SUSTAIN)]
      else replicate (nat (snd e)) (d, note_off_msg (k_ch (fst e)) (k_n (fst e))))"

definition all_off_msgs :: "int \<Rightarrow> nat \<Rightarrow> (int \<times> midimsg_t) list" where
  "all_off_msgs d c =
     [(d, control_msg (int c) C_ALL_NOTES_OFF), (d, control_msg (int c) C_SUSTAIN),
      (d, control_msg (int c) C_ALL_SOUND_OFF)]"

definition stop_msgs :: "int \<Rightarrow> note_map \<Rightarrow> (int \<times> midimsg_t) list" where
  "stop_msgs d m =
     concat (map (cancel_msgs d) (filter (\<lambda>e. k_devNum (fst e) = d) m))
       @ concat (map (all_off_msgs d) [0..<16])"

definition partitioned :: "('a \<Rightarrow> bool) \<Rightarrow> 'a list \<Rightarrow> int \<Rightarrow> bool" where
  "partitioned P q i \<longleftrightarrow>
     0 \<le> i \<and> i \<le> int (length q) \<and>
     (\<forall>k. 0 \<le> k \<and> k < i \<longrightarrow> \<not> P (q ! nat k)) \<and>
     (\<forall>k. i \<le> k \<and> k < int (length q) \<longrightarrow> P (q ! nat k))"

section \<open>Properties of the note map\<close>

lemma lessp_irrefl: "\<not> lessp a a"
  by (simp add: lessp_def)

lemma lessp_trans: "lessp a b \<Longrightarrow> lessp b c \<Longrightarrow> lessp a c"
  unfolding lessp_def by auto

lemma lessp_total: "\<not> lessp a b \<Longrightarrow> \<not> lessp b a \<Longrightarrow> a = b"
  unfolding lessp_def by (cases a; cases b) auto

lemma set_insert_nm: "set (insert_nm k c m) \<subseteq> insert (k, c) (set m)"
  by (induction m) (auto split: if_splits)

lemma pos_counts_assign: "pos_counts m \<Longrightarrow> 0 < c \<Longrightarrow> pos_counts (assign_nm k c m)"
  by (auto simp: pos_counts_def assign_nm_def)

lemma pos_counts_erase: "pos_counts m \<Longrightarrow> pos_counts (erase_nm k m)"
  by (auto simp: pos_counts_def erase_nm_def)

lemma pos_counts_erase_range: "pos_counts m \<Longrightarrow> pos_counts (erase_range m p)"
  by (auto simp: pos_counts_def erase_range_def split: option.splits
           dest: in_set_takeD in_set_dropD)

lemma find_nm_in_set: "find_nm k m = Some c \<Longrightarrow> (k, c) \<in> set m"
  by (simp add: find_nm_def map_of_SomeD)

lemma pile_nonneg: "pos_counts m \<Longrightarrow> 0 \<le> pile m k"
  by (auto simp: pile_def pos_counts_def split: option.splits dest!: find_nm_in_set)

lemma pile_pos_iff: "pos_counts m \<Longrightarrow> k \<in> fst ` set m \<longleftrightarrow> 0 < pile m k"
proof
  assume p: "pos_counts m" and "k \<in> fst ` set m"
  then obtain c where "find_nm k m = Some c"
    by (metis find_nm_def map_of_eq_None_iff not_None_eq)
  with p show "0 < pile m k"
    by (auto simp: pile_def pos_counts_def dest!: find_nm_in_set)
next
  assume "0 < pile m k"
  then show "k \<in> fst ` set m"
    by (auto simp: pile_def split: option.splits dest!: find_nm_in_set intro: rev_image_eqI)
qed

lemma assign_nm_insert_pos:
  assumes "pos_counts m" "0 < c"
  shows "pos_counts (assign_nm k c (insert_nm k 0 m))"
proof -
  have "\<forall>e \<in> set (insert_nm k 0 m). fst e \<noteq> k \<longrightarrow> 0 < snd e"
    using assms(1) set_insert_nm[of k 0 m] by (auto simp: pos_counts_def)
  then show ?thesis using assms(2) by (auto simp: pos_counts_def assign_nm_def)
qed

lemma pile_insert_nonneg:
  assumes "pos_counts m"
  shows "0 \<le> pile (insert_nm k 0 m) k"
proof (cases "find_nm k (insert_nm k 0 m)")
  case None
  then show ?thesis by (simp add: pile_def)
next
  case (Some v)
  then have "(k, v) \<in> insert (k, 0) (set m)"
    using set_insert_nm[of k 0 m] by (auto dest!: find_nm_in_set)
  with assms have "0 \<le> v" by (auto simp: pos_counts_def)
  with Some show ?thesis by (simp add: pile_def)
qed

lemma pos_counts_push: "pos_counts m \<Longrightarrow> pos_counts (snd (push m d t c n))"
  using pile_insert_nonneg[of m "Key d t c n"]
  by (simp add: push_def Let_def assign_nm_insert_pos)

lemma pos_counts_pop: "pos_counts m \<Longrightarrow> pos_counts (snd (pop m d t c n))"
proof (cases "find_nm (Key d t c n) m")
  case None
  assume "pos_counts m"
  with None show ?thesis by (simp add: pop_def)
next
  case (Some v)
  assume p: "pos_counts m"
  with Some have "0 < v" by (auto simp: pos_counts_def dest!: find_nm_in_set)
  with p Some show ?thesis
    by (auto simp: pop_def Let_def pos_counts_erase intro!: pos_counts_assign)
qed

lemma pos_counts_set: "pos_counts m \<Longrightarrow> pos_counts (set_nm m d t c n 1)"
  using set_insert_nm[of "Key d t c n" 1 m] by (auto simp: pos_counts_def set_nm_def)

lemma reachable_pos_counts: "reachable m \<Longrightarrow> pos_counts m"
proof (induction rule: reachable.induct)
  case reach_empty
  show ?case by (simp add: pos_counts_def)
next
  case (reach_clear m)
  show ?case by (simp add: pos_counts_def clear_all_def)
qed (simp_all add: pos_counts_push pos_counts_pop pos_counts_set clear_prefix_def
      clearAndCall_def Let_def pos_counts_erase_range)

lemma pop_absent: "k \<notin> fst ` set m \<Longrightarrow> k = Key d t c n \<Longrightarrow> pop m d t c n = (0, m)"
  by (simp add: pop_def find_nm_def map_of_eq_None_iff[THEN iffD2])

text \<open>
  Claim C6. In every state of a note map that is reachable from the empty map by
  \<open>push\<close>, \<open>pop\<close>, \<open>set\<close> with count 1, \<open>clear\<close>, \<open>clear\<close> of a prefix and
  \<open>clearAndCall\<close>, every stored pile count is at least 0, the pile count of every key is
  at least 0, a key is present if and only if its pile count is greater than 0, and
  \<open>pop\<close> of a key that is absent returns 0 and leaves the map as it is.
\<close>

theorem notemap_invariant:
  assumes "reachable m"
  shows "(\<forall>e \<in> set m. 0 \<le> snd e) \<and> (\<forall>k. 0 \<le> pile m k)
       \<and> (\<forall>k. k \<in> fst ` set m \<longleftrightarrow> 0 < pile m k)
       \<and> (\<forall>d t c n. Key d t c n \<notin> fst ` set m \<longrightarrow> pop m d t c n = (0, m))"
proof -
  from assms have p: "pos_counts m" by (rule reachable_pos_counts)
  then have "\<forall>e \<in> set m. 0 \<le> snd e" by (auto simp: pos_counts_def intro: less_imp_le)
  moreover from p have "\<forall>k. 0 \<le> pile m k" by (simp add: pile_nonneg)
  moreover from p have "\<forall>k. k \<in> fst ` set m \<longleftrightarrow> 0 < pile m k" by (simp add: pile_pos_iff)
  moreover have "\<forall>d t c n. Key d t c n \<notin> fst ` set m \<longrightarrow> pop m d t c n = (0, m)"
    by (simp add: pop_absent)
  ultimately show ?thesis by blast
qed

theorem notemap_invariant_witness:
  "reachable (snd (push (snd (push [] 0 7 1 60)) 0 7 1 60))
   \<and> snd (push (snd (push [] 0 7 1 60)) 0 7 1 60) = [(Key 0 7 1 60, 2)]
   \<and> 0 < pile [(Key 0 7 1 60, 2)] (Key 0 7 1 60)
   \<and> Key 0 7 1 61 \<notin> fst ` set [(Key 0 7 1 60, 2::int)]
   \<and> pop [(Key 0 7 1 60, 2)] 0 7 1 61 = (0, [(Key 0 7 1 60, 2)])"
proof -
  have e1: "snd (push [] 0 7 1 60) = [(Key 0 7 1 60, 1)]"
    by (simp add: push_def pile_def find_nm_def assign_nm_def)
  have e2: "snd (push [(Key 0 7 1 60, 1)] 0 7 1 60) = [(Key 0 7 1 60, 2)]"
    by (simp add: push_def pile_def find_nm_def assign_nm_def lessp_def)
  have r1: "reachable (snd (push [] 0 7 1 60))"
    by (rule reach_push[OF reach_empty]) (simp add: pile_def find_nm_def)
  have r2: "reachable (snd (push (snd (push [] 0 7 1 60)) 0 7 1 60))"
    by (rule reach_push[OF r1]) (simp add: e1 pile_def find_nm_def)
  have a: "Key 0 7 1 61 \<notin> fst ` set [(Key 0 7 1 60, 2::int)]" by simp
  have r3: "reachable [(Key 0 7 1 60, 2)]" using r2 by (simp only: e1 e2)
  note inv = notemap_invariant[OF r3]
  have "Key 0 7 1 60 \<in> fst ` set [(Key 0 7 1 60, 2::int)]
          \<longleftrightarrow> 0 < pile [(Key 0 7 1 60, 2)] (Key 0 7 1 60)"
    by (rule inv[THEN conjunct2, THEN conjunct2, THEN conjunct1, THEN spec])
  then have b: "0 < pile [(Key 0 7 1 60, 2)] (Key 0 7 1 60)" by simp
  have c: "pop [(Key 0 7 1 60, 2)] 0 7 1 61 = (0, [(Key 0 7 1 60, 2)])"
    by (rule inv[THEN conjunct2, THEN conjunct2, THEN conjunct2, rule_format, OF a])
  from r2 e1 e2 a b c show ?thesis by simp
qed

section \<open>Retriggering in midiOutSendMessage\<close>

lemma sendmsg_note_on:
  assumes "retriggerNotes st" "length (msg m) = 3"
      and "msg m ! 0 AND 0xf0 = 0x90" "msg m ! 2 \<noteq> 0"
  shows "midiOutSendMessage devNum t m st =
     Some (st\<lparr>retriggerNoteMap :=
                snd (push (retriggerNoteMap st) devNum 0 (uint (msg m ! 0 AND 0xf)) (uint (msg m ! 1))),
              cancelNoteMap :=
                snd (push (cancelNoteMap st) devNum t (uint (msg m ! 0 AND 0xf)) (uint (msg m ! 1))),
              sent := sent st @
                 (if fst (push (retriggerNoteMap st) devNum 0 (uint (msg m ! 0 AND 0xf))
                            (uint (msg m ! 1))) \<ge> 1
                  then [(devNum, m\<lparr>msg := (msg m)[2 := 0]\<rparr>)] else []) @ [(devNum, m)]\<rparr>)"
proof -
  from assms(2) have "msg m \<noteq> []" by auto
  with assms show ?thesis by (simp add: midiOutSendMessage_def Let_def midi_send_def)
qed

lemma sendmsg_note_off:
  assumes "retriggerNotes st" "length (msg m) = 3"
      and "msg m ! 0 AND 0xf0 = 0x80 \<or> (msg m ! 0 AND 0xf0 = 0x90 \<and> msg m ! 2 = 0)"
  shows "midiOutSendMessage devNum t m st =
     Some (st\<lparr>retriggerNoteMap :=
                snd (pop (retriggerNoteMap st) devNum 0 (uint (msg m ! 0 AND 0xf)) (uint (msg m ! 1))),
              cancelNoteMap :=
                snd (pop (cancelNoteMap st) devNum t (uint (msg m ! 0 AND 0xf)) (uint (msg m ! 1))),
              sent := sent st @
                 (if fst (pop (retriggerNoteMap st) devNum 0 (uint (msg m ! 0 AND 0xf))
                            (uint (msg m ! 1))) \<ge> 1
                  then [] else [(devNum, m)])\<rparr>)"
proof -
  from assms(2) have ne: "msg m \<noteq> []" by auto
  from assms(3) show ?thesis
  proof
    assume "msg m ! 0 AND 0xf0 = 0x80"
    with assms(1,2) ne show ?thesis
      by (simp add: midiOutSendMessage_def Let_def midi_send_def)
  next
    assume "msg m ! 0 AND 0xf0 = 0x90 \<and> msg m ! 2 = 0"
    with assms(1,2) ne show ?thesis
      by (simp add: midiOutSendMessage_def Let_def midi_send_def)
  qed
qed

text \<open>
  Claim C1. Retriggering is enabled and the message is a short message of three bytes,
  with channel \<open>ch\<close> in the low four bits of its status byte and the note in its second
  byte. If it is a true note-on (status \<open>0x9_\<close>, velocity not 0), the call returns,
  \<open>cancel_map.push(d, tk, ch, note)\<close> has been performed, and when
  \<open>retrigger_map.push(d, 0, ch, note)\<close> returned a count of 1 or more, the messages sent
  are exactly a copy of the message with velocity 0 and then the message itself. If it
  is a note-off (status \<open>0x8_\<close>) or a note-on with velocity 0, the call returns,
  \<open>cancel_map.pop(d, tk, ch, note)\<close> has been performed, and when
  \<open>retrigger_map.pop(d, 0, ch, note)\<close> returned a count of 1 or more, nothing is sent.
\<close>

theorem retrigger_send:
  assumes "retriggerNotes st" and "length (msg m) = 3"
  shows
    "(msg m ! 0 AND 0xf0 = 0x90 \<and> msg m ! 2 \<noteq> 0 \<longrightarrow>
        (\<exists>st'. midiOutSendMessage devNum t m st = Some st'
           \<and> retriggerNoteMap st' =
               snd (push (retriggerNoteMap st) devNum 0 (uint (msg m ! 0 AND 0xf)) (uint (msg m ! 1)))
           \<and> cancelNoteMap st' =
               snd (push (cancelNoteMap st) devNum t (uint (msg m ! 0 AND 0xf)) (uint (msg m ! 1)))
           \<and> (1 \<le> fst (push (retriggerNoteMap st) devNum 0 (uint (msg m ! 0 AND 0xf))
                         (uint (msg m ! 1)))
                \<longrightarrow> sent st' = sent st @ [(devNum, m\<lparr>msg := (msg m)[2 := 0]\<rparr>), (devNum, m)])
           \<and> (fst (push (retriggerNoteMap st) devNum 0 (uint (msg m ! 0 AND 0xf))
                     (uint (msg m ! 1))) < 1
                \<longrightarrow> sent st' = sent st @ [(devNum, m)])))
   \<and> (msg m ! 0 AND 0xf0 = 0x80 \<or> (msg m ! 0 AND 0xf0 = 0x90 \<and> msg m ! 2 = 0) \<longrightarrow>
        (\<exists>st'. midiOutSendMessage devNum t m st = Some st'
           \<and> retriggerNoteMap st' =
               snd (pop (retriggerNoteMap st) devNum 0 (uint (msg m ! 0 AND 0xf)) (uint (msg m ! 1)))
           \<and> cancelNoteMap st' =
               snd (pop (cancelNoteMap st) devNum t (uint (msg m ! 0 AND 0xf)) (uint (msg m ! 1)))
           \<and> (1 \<le> fst (pop (retriggerNoteMap st) devNum 0 (uint (msg m ! 0 AND 0xf))
                         (uint (msg m ! 1)))
                \<longrightarrow> sent st' = sent st)
           \<and> (fst (pop (retriggerNoteMap st) devNum 0 (uint (msg m ! 0 AND 0xf))
                     (uint (msg m ! 1))) < 1
                \<longrightarrow> sent st' = sent st @ [(devNum, m)])))"
proof (intro conjI impI)
  assume "msg m ! 0 AND 0xf0 = 0x90 \<and> msg m ! 2 \<noteq> 0"
  then show "\<exists>st'. midiOutSendMessage devNum t m st = Some st'
           \<and> retriggerNoteMap st' =
               snd (push (retriggerNoteMap st) devNum 0 (uint (msg m ! 0 AND 0xf)) (uint (msg m ! 1)))
           \<and> cancelNoteMap st' =
               snd (push (cancelNoteMap st) devNum t (uint (msg m ! 0 AND 0xf)) (uint (msg m ! 1)))
           \<and> (1 \<le> fst (push (retriggerNoteMap st) devNum 0 (uint (msg m ! 0 AND 0xf))
                         (uint (msg m ! 1)))
                \<longrightarrow> sent st' = sent st @ [(devNum, m\<lparr>msg := (msg m)[2 := 0]\<rparr>), (devNum, m)])
           \<and> (fst (push (retriggerNoteMap st) devNum 0 (uint (msg m ! 0 AND 0xf))
                     (uint (msg m ! 1))) < 1
                \<longrightarrow> sent st' = sent st @ [(devNum, m)])"
    using sendmsg_note_on[OF assms, of devNum t] by simp
next
  assume "msg m ! 0 AND 0xf0 = 0x80 \<or> (msg m ! 0 AND 0xf0 = 0x90 \<and> msg m ! 2 = 0)"
  then show "\<exists>st'. midiOutSendMessage devNum t m st = Some st'
           \<and> retriggerNoteMap st' =
               snd (pop (retriggerNoteMap st) devNum 0 (uint (msg m ! 0 AND 0xf)) (uint (msg m ! 1)))
           \<and> cancelNoteMap st' =
               snd (pop (cancelNoteMap st) devNum t (uint (msg m ! 0 AND 0xf)) (uint (msg m ! 1)))
           \<and> (1 \<le> fst (pop (retriggerNoteMap st) devNum 0 (uint (msg m ! 0 AND 0xf))
                         (uint (msg m ! 1)))
                \<longrightarrow> sent st' = sent st)
           \<and> (fst (pop (retriggerNoteMap st) devNum 0 (uint (msg m ! 0 AND 0xf))
                     (uint (msg m ! 1))) < 1
                \<longrightarrow> sent st' = sent st @ [(devNum, m)])"
    using sendmsg_note_off[OF assms, of devNum t] by simp
qed

theorem retrigger_send_witness:
  "retriggerNotes (startup\<lparr>midiOutHandles := [True], retriggerNoteMap := [(Key 0 0 0 60, 1)]\<rparr>)
   \<and> length (msg \<lparr>msg = [0x90, 60, 100], isSysEx = False\<rparr>) = 3
   \<and> (\<exists>st'. midiOutSendMessage 0 5 \<lparr>msg = [0x90, 60, 100], isSysEx = False\<rparr>
              (startup\<lparr>midiOutHandles := [True], retriggerNoteMap := [(Key 0 0 0 60, 1)]\<rparr>)
            = Some st'
          \<and> cancelNoteMap st' = [(Key 0 5 0 60, 1)]
          \<and> sent st' = [(0, \<lparr>msg = [0x90, 60, 0], isSysEx = False\<rparr>),
                        (0, \<lparr>msg = [0x90, 60, 100], isSysEx = False\<rparr>)])"
proof -
  define st where "st = startup\<lparr>midiOutHandles := [True], retriggerNoteMap := [(Key 0 0 0 60, 1)]\<rparr>"
  define m where "m = \<lparr>msg = [0x90 :: 8 word, 60, 100], isSysEx = False\<rparr>"
  have h1: "retriggerNotes st" by (simp add: st_def startup_def)
  have h2: "length (msg m) = 3" by (simp add: m_def)
  have on: "msg m ! 0 AND 0xf0 = 0x90 \<and> msg m ! 2 \<noteq> 0" by (simp add: m_def)
  have c: "uint (msg m ! 0 AND 0xf) = 0" "uint (msg m ! 1) = 60" by (simp_all add: m_def)
  have p: "push (retriggerNoteMap st) 0 0 0 60 = (1, [(Key 0 0 0 60, 2)])"
    by (simp add: st_def startup_def push_def pile_def find_nm_def assign_nm_def lessp_def)
  have q: "push (cancelNoteMap st) 0 5 0 60 = (0, [(Key 0 5 0 60, 1)])"
    by (simp add: st_def startup_def push_def pile_def find_nm_def assign_nm_def)
  have s: "sent st = []" by (simp add: st_def startup_def)
  from retrigger_send[OF h1 h2, of 0 5, THEN conjunct1, rule_format, OF on]
  obtain st' where "midiOutSendMessage 0 5 m st = Some st'"
    and "cancelNoteMap st' = [(Key 0 5 0 60, 1)]"
    and "sent st' = [(0, m\<lparr>msg := (msg m)[2 := 0]\<rparr>), (0, m)]"
    unfolding c p q s by auto
  then show ?thesis using h1 h2 unfolding st_def m_def by auto
qed


section \<open>Properties of the tempo map\<close>

lemma isfinite_cases: "isfinite x \<longleftrightarrow> (\<exists>r. x = Fin r) \<or> x = NegZero"
  by (cases x) (simp_all add: isfinite_def isnan_def isinf_def)

lemma fin_neg: "isfinite x \<Longrightarrow> isfinite (dneg x) \<and> dval (dneg x) = - dval x"
  by (cases x) (simp_all add: isfinite_def isnan_def isinf_def)

lemma fin_result: "isfinite (finite_result s r) \<and> dval (finite_result s r) = r"
  by (simp add: finite_result_def signed_zero_def isfinite_def isnan_def isinf_def)

lemma fin_add: "isfinite x \<Longrightarrow> isfinite y \<Longrightarrow> isfinite (dadd x y) \<and> dval (dadd x y) = dval x + dval y"
  by (simp add: dadd_def fin_result) (simp add: isfinite_def)

lemma fin_sub: "isfinite x \<Longrightarrow> isfinite y \<Longrightarrow> isfinite (dsub x y) \<and> dval (dsub x y) = dval x - dval y"
  using fin_add[of x "dneg y"] fin_neg[of y] by (simp add: dsub_def)

lemma fin_mul: "isfinite x \<Longrightarrow> isfinite y \<Longrightarrow> isfinite (dmul x y) \<and> dval (dmul x y) = dval x * dval y"
  by (simp add: dmul_def fin_result) (simp add: isfinite_def)

lemma fin_div: "isfinite x \<Longrightarrow> isfinite y \<Longrightarrow> dval y \<noteq> 0 \<Longrightarrow>
   isfinite (ddiv x y) \<and> dval (ddiv x y) = dval x / dval y"
  by (simp add: ddiv_def fin_result) (simp add: isfinite_def)

lemma deq_fin: "isfinite x \<Longrightarrow> isfinite y \<Longrightarrow> deq x y \<longleftrightarrow> dval x = dval y"
  by (cases x; cases y) (simp_all add: deq_def isfinite_def isnan_def isinf_def)

lemma dgt_zero_fin: "isfinite x \<Longrightarrow> dgt x (Fin 0) \<longleftrightarrow> 0 < dval x"
  by (cases x) (simp_all add: dgt_def dless_def isfinite_def isnan_def isinf_def)

lemma isfinite_Fin [simp]: "isfinite (Fin r)"
  by (simp add: isfinite_def isnan_def isinf_def)

lemmas fin_simps =
  fin_add[THEN conjunct1] fin_add[THEN conjunct2]
  fin_sub[THEN conjunct1] fin_sub[THEN conjunct2]
  fin_mul[THEN conjunct1] fin_mul[THEN conjunct2]
  fin_div[THEN conjunct1] fin_div[THEN conjunct2]

lemmas double_defs =
  dadd_def dsub_def dmul_def ddiv_def isnan_def isinf_def isfinite_def
  finite_result_def signed_zero_def signed_inf_def dgt_def dless_def deq_def

lemma sign_bit_fin: "isfinite y \<Longrightarrow> dval y \<noteq> 0 \<Longrightarrow> sign_bit y \<longleftrightarrow> dval y < 0"
  by (cases y) (simp_all add: isfinite_def isnan_def isinf_def)

lemma inf_add_fin: "isinf x \<Longrightarrow> isfinite y \<Longrightarrow> dadd x y = x"
  by (auto simp: dadd_def isfinite_def isinf_def isnan_def)

lemma inf_sub_fin: "isinf x \<Longrightarrow> isfinite y \<Longrightarrow> dsub x y = x"
  using fin_neg[of y] by (simp add: dsub_def inf_add_fin)

lemma inf_mul_fin:
  "isinf x \<Longrightarrow> isfinite y \<Longrightarrow> dval y \<noteq> 0 \<Longrightarrow> dmul x y = signed_inf (sign_bit x \<noteq> (dval y < 0))"
  using sign_bit_fin[of y] by (auto simp: dmul_def isfinite_def isinf_def isnan_def)

lemma inf_div_fin:
  "isinf x \<Longrightarrow> isfinite y \<Longrightarrow> dval y \<noteq> 0 \<Longrightarrow> ddiv x y = signed_inf (sign_bit x \<noteq> (dval y < 0))"
  using sign_bit_fin[of y] by (auto simp: ddiv_def isfinite_def isinf_def isnan_def)

lemma signed_inf_simps [simp]:
  "isinf (signed_inf s)" "sign_bit (signed_inf s) = s"
  by (simp_all add: signed_inf_def isinf_def)

lemma inf_is_signed_inf: "isinf x \<Longrightarrow> x = signed_inf (sign_bit x)"
  by (auto simp: isinf_def signed_inf_def)

lemma deq_zero: "deq x (Fin 0) \<longleftrightarrow> isfinite x \<and> dval x = 0"
  by (cases x) (simp_all add: deq_def isfinite_def isnan_def isinf_def)

lemma fin_div_zero:
  "isfinite x \<Longrightarrow> dval x \<noteq> 0 \<Longrightarrow> isfinite y \<Longrightarrow> dval y = 0 \<Longrightarrow>
   ddiv x y = signed_inf ((dval x < 0) \<noteq> sign_bit y)"
  using sign_bit_fin[of x] by (simp add: ddiv_def isfinite_def)

text \<open>
  Claim C3, as amended. When \<open>tempo_bpm * tempo_scale\<close> is zero and \<open>t\<close> and the anchor
  are finite with \<open>t\<close> different from \<open>last_change_ticks\<close>, \<open>ticks_to_ms(t)\<close> is an
  infinity. It is \<open>+\<infinity>\<close> when \<open>t\<close> is above \<open>last_change_ticks\<close> and the product is
  the positive zero, and \<open>-\<infinity>\<close> when \<open>t\<close> is below it; the negative zero as product
  exchanges the two.
\<close>

theorem ticks_to_ms_zero_tempo:
  assumes "deq (dmul (currentTempo st) (tempoScale st)) (Fin 0)"
      and "isfinite t" "isfinite (lastTempoChangeT st)" "isfinite (lastTempoChangeS st)"
      and "dval t \<noteq> dval (lastTempoChangeT st)"
  shows "ticksToMsecs st t =
           signed_inf ((dval t < dval (lastTempoChangeT st))
                       \<noteq> sign_bit (dmul (currentTempo st) (tempoScale st)))"
proof -
  from assms(1) have z: "isfinite (dmul (currentTempo st) (tempoScale st))"
      "dval (dmul (currentTempo st) (tempoScale st)) = 0"
    by (simp_all add: deq_zero)
  have n: "isfinite (dmul (dsub t (lastTempoChangeT st)) (Fin 125))"
    using assms(2,3) by (simp add: fin_simps)
  have nv: "dval (dmul (dsub t (lastTempoChangeT st)) (Fin 125))
              = (dval t - dval (lastTempoChangeT st)) * 125"
    using assms(2,3) by (simp add: fin_simps)
  have nz: "dval (dmul (dsub t (lastTempoChangeT st)) (Fin 125)) \<noteq> 0"
    unfolding nv using assms(5) by simp
  have neg: "dval (dmul (dsub t (lastTempoChangeT st)) (Fin 125)) < 0
               \<longleftrightarrow> dval t < dval (lastTempoChangeT st)"
    unfolding nv by simp
  show ?thesis
    unfolding ticksToMsecs_def fin_div_zero[OF n nz z] neg
    using assms(4) by (simp add: inf_add_fin)
qed

lemma ticks_to_ms_zero_tempo_at_anchor:
  assumes "deq (dmul (currentTempo st) (tempoScale st)) (Fin 0)"
      and "isfinite t" "isfinite (lastTempoChangeT st)"
      and "dval t = dval (lastTempoChangeT st)"
  shows "ticksToMsecs st t = NaN"
proof -
  from assms(1) have z: "isfinite (dmul (currentTempo st) (tempoScale st))"
      "dval (dmul (currentTempo st) (tempoScale st)) = 0"
    by (simp_all add: deq_zero)
  have n: "isfinite (dmul (dsub t (lastTempoChangeT st)) (Fin 125))"
    using assms(2,3) by (simp add: fin_simps)
  have nv: "dval (dmul (dsub t (lastTempoChangeT st)) (Fin 125)) = 0"
    using assms(2,3,4) by (simp add: fin_simps)
  have "ddiv (dmul (dsub t (lastTempoChangeT st)) (Fin 125))
             (dmul (currentTempo st) (tempoScale st)) = NaN"
    using n nv z by (simp add: ddiv_def isfinite_def)
  then show ?thesis by (simp add: ticksToMsecs_def dadd_def isnan_def)
qed

text \<open>
  After \<open>set_tempo_scale(0)\<close> has been applied at 10 ms, the tick 0 lies before the
  anchor and is converted to \<open>-\<infinity>\<close>.
\<close>

theorem ticks_to_ms_zero_tempo_counterexample:
  "deq (dmul (currentTempo (applyTempoScaleChange (Fin 10) (setTempoScale (Fin 0) startup)))
             (tempoScale (applyTempoScaleChange (Fin 10) (setTempoScale (Fin 0) startup))))
       (Fin 0)
   \<and> ticksToMsecs (applyTempoScaleChange (Fin 10) (setTempoScale (Fin 0) startup)) (Fin 0) = NInf"
  by (simp add: applyTempoScaleChange_def setTempoScale_def startup_def ticksToMsecs_def
        double_of_int_def double_defs)

theorem ticks_to_ms_zero_tempo_witness:
  "deq (dmul (currentTempo (startup\<lparr>tempoScale := Fin 0\<rparr>)) (tempoScale (startup\<lparr>tempoScale := Fin 0\<rparr>))) (Fin 0)
   \<and> ticksToMsecs (startup\<lparr>tempoScale := Fin 0\<rparr>) (Fin 1) = PInf"
proof -
  define st where "st = startup\<lparr>tempoScale := Fin 0\<rparr>"
  have p: "dmul (currentTempo st) (tempoScale st) = Fin 0"
    by (simp add: st_def startup_def double_defs)
  have h: "deq (dmul (currentTempo st) (tempoScale st)) (Fin 0)"
    unfolding p by (simp add: deq_def isnan_def)
  have f: "isfinite (Fin 1)" "isfinite (lastTempoChangeT st)" "isfinite (lastTempoChangeS st)"
    by (simp_all add: st_def startup_def)
  have d: "dval (Fin 1) \<noteq> dval (lastTempoChangeT st)" by (simp add: st_def startup_def)
  have "ticksToMsecs st (Fin 1) = PInf"
    using ticks_to_ms_zero_tempo[OF h f d] unfolding p
    by (simp add: st_def startup_def signed_inf_def)
  with h show ?thesis unfolding st_def by simp
qed

lemma zero_add:
  assumes "isfinite z" "dval z = 0" "\<not> isnan x"
  shows "deq (dadd z x) x"
proof (cases "isinf x")
  case True
  with assms(1) have "dadd z x = x" by (auto simp: dadd_def isfinite_def isnan_def isinf_def)
  with True show ?thesis by (auto simp: deq_def isinf_def isnan_def)
next
  case False
  with assms(3) have x: "isfinite x" by (simp add: isfinite_def)
  from fin_add[OF assms(1) x] assms(2) x show ?thesis by (simp add: deq_fin)
qed

text \<open>
  Claim C9, as amended. A request \<open>set_tempo_scale(s)\<close> with a finite \<open>s\<close> is applied by
  the scheduler at a finite time \<open>now\<close>, the tempo being finite and \<open>ms_to_ticks(now)\<close>
  before the change being a number. Afterwards the tempo scale is \<open>s\<close>, or 0 when \<open>s\<close>
  is negative; the anchor is \<open>now\<close> and the tick value that the parameters before the
  change give for \<open>now\<close>; the tempo is unchanged; and \<open>ms_to_ticks(now)\<close> is the same
  before and after the change. The proof uses the arithmetic of zeros and of the special
  values only, which is exact in IEEE 754 as well.
\<close>

theorem tempo_scale_change:
  assumes "isfinite now" "isfinite (currentTempo st)" "isfinite s"
      and "\<not> isnan (msecsToTicks st now)"
  shows "tempoScale (applyTempoScaleChange now (setTempoScale s st))
           = (if dless s (Fin 0) then Fin 0 else s)
       \<and> dval (tempoScale (applyTempoScaleChange now (setTempoScale s st))) = max (dval s) 0
       \<and> lastTempoChangeS (applyTempoScaleChange now (setTempoScale s st)) = now
       \<and> lastTempoChangeT (applyTempoScaleChange now (setTempoScale s st)) = msecsToTicks st now
       \<and> currentTempo (applyTempoScaleChange now (setTempoScale s st)) = currentTempo st
       \<and> deq (msecsToTicks (applyTempoScaleChange now (setTempoScale s st)) now)
              (msecsToTicks st now)"
proof -
  let ?st' = "applyTempoScaleChange now (setTempoScale s st)"
  have sc: "tempoScale ?st' = (if dless s (Fin 0) then Fin 0 else s)"
    by (simp add: applyTempoScaleChange_def setTempoScale_def double_of_int_def)
  have scf: "isfinite (tempoScale ?st')" using assms(3) by (simp add: sc)
  have "dval (if dless s (Fin 0) then Fin 0 else s) = max (dval s) 0"
    using assms(3) by (cases s) (auto simp: dless_def isfinite_def isnan_def isinf_def)
  then have scv: "dval (tempoScale ?st') = max (dval s) 0"
    unfolding sc .
  have S: "lastTempoChangeS ?st' = now"
    by (simp add: applyTempoScaleChange_def setTempoScale_def)
  have T: "lastTempoChangeT ?st' = msecsToTicks st now"
    by (simp add: applyTempoScaleChange_def setTempoScale_def msecsToTicks_def double_of_int_def)
  have b: "currentTempo ?st' = currentTempo st"
    by (simp add: applyTempoScaleChange_def setTempoScale_def)
  have zf: "isfinite (ddiv (dmul (dmul (dsub now now) (currentTempo st)) (tempoScale ?st')) (Fin 125))"
    using assms(1,2) scf by (simp add: fin_simps)
  have zv: "dval (ddiv (dmul (dmul (dsub now now) (currentTempo st)) (tempoScale ?st')) (Fin 125)) = 0"
    using assms(1,2) scf by (simp add: fin_simps)
  have "deq (msecsToTicks ?st' now) (msecsToTicks st now)"
    unfolding msecsToTicks_def[of ?st'] S T b by (rule zero_add[OF zf zv assms(4)])
  with sc scv S T b show ?thesis by simp
qed

text \<open>
  At startup \<open>ms_to_ticks(10)\<close> is 10. After \<open>set_tempo_scale(+\<infinity>)\<close>, which the clamp of
  \<open>setTempoScale\<close> lets through, has been applied at 10 ms, \<open>ms_to_ticks(10)\<close> is
  \<open>0 * \<infinity>\<close>, a NaN.
\<close>

theorem tempo_scale_change_counterexample:
  "msecsToTicks startup (Fin 10) = Fin 10
   \<and> msecsToTicks (applyTempoScaleChange (Fin 10) (setTempoScale PInf startup)) (Fin 10) = NaN"
  by (simp add: applyTempoScaleChange_def setTempoScale_def startup_def msecsToTicks_def
        double_of_int_def double_defs)

theorem tempo_scale_change_witness:
  "isfinite (Fin 10) \<and> isfinite (currentTempo startup) \<and> isfinite (Fin (- 2))
   \<and> \<not> isnan (msecsToTicks startup (Fin 10))
   \<and> tempoScale (applyTempoScaleChange (Fin 10) (setTempoScale (Fin (- 2)) startup)) = Fin 0
   \<and> deq (msecsToTicks (applyTempoScaleChange (Fin 10) (setTempoScale (Fin (- 2)) startup)) (Fin 10))
          (msecsToTicks startup (Fin 10))"
proof -
  have h: "isfinite (Fin 10)" "isfinite (currentTempo startup)" "isfinite (Fin (- 2))"
    by (simp_all add: startup_def)
  have n: "\<not> isnan (msecsToTicks startup (Fin 10))"
    by (simp add: startup_def msecsToTicks_def double_defs)
  have d: "dless (Fin (- 2)) (Fin 0)" by (simp add: dless_def isnan_def)
  from tempo_scale_change[OF h n] d h n show ?thesis by simp
qed

lemma rnd_zero: "rnd 0 x = x"
  by (cases x) (simp_all add: rnd_def)

lemma fin_rnd: "isfinite x \<Longrightarrow> isfinite (rnd e x) \<and> dval (rnd e x) = dval x * (1 + e)"
  by (cases x) (simp_all add: rnd_def isfinite_def isnan_def isinf_def)

lemma ticksToMsecs_fl_exact: "ticksToMsecs_fl 0 0 0 0 0 st t = ticksToMsecs st t"
  by (simp add: ticksToMsecs_fl_def ticksToMsecs_def rnd_zero)

lemma msecsToTicks_fl_exact: "msecsToTicks_fl 0 0 0 0 0 st t = msecsToTicks st t"
  by (simp add: msecsToTicks_fl_def msecsToTicks_def rnd_zero)

lemma ticksToMsecs_fl_value:
  assumes "isfinite (currentTempo st)" "isfinite (tempoScale st)"
      and "isfinite (lastTempoChangeS st)" "isfinite (lastTempoChangeT st)" "isfinite t"
      and "dval (currentTempo st) * dval (tempoScale st) * (1 + e3) \<noteq> 0"
  shows "isfinite (ticksToMsecs_fl e1 e2 e3 e4 e5 st t)
       \<and> dval (ticksToMsecs_fl e1 e2 e3 e4 e5 st t)
          = ((dval t - dval (lastTempoChangeT st)) * (1 + e1) * 125 * (1 + e2)
               / (dval (currentTempo st) * dval (tempoScale st) * (1 + e3)) * (1 + e4)
             + dval (lastTempoChangeS st)) * (1 + e5)"
proof -
  define x1 where "x1 = rnd e1 (dsub t (lastTempoChangeT st))"
  define x2 where "x2 = rnd e2 (dmul x1 (Fin 125))"
  define pf where "pf = rnd e3 (dmul (currentTempo st) (tempoScale st))"
  define x3 where "x3 = rnd e4 (ddiv x2 pf)"
  have f1: "isfinite x1 \<and> dval x1 = (dval t - dval (lastTempoChangeT st)) * (1 + e1)"
    unfolding x1_def using fin_rnd[of "dsub t (lastTempoChangeT st)" e1] fin_sub[OF assms(5,4)]
    by simp
  have f2: "isfinite x2 \<and> dval x2 = dval x1 * 125 * (1 + e2)"
    unfolding x2_def using fin_rnd[of "dmul x1 (Fin 125)" e2] fin_mul[of x1 "Fin 125"] f1
    by simp
  have fp: "isfinite pf \<and> dval pf = dval (currentTempo st) * dval (tempoScale st) * (1 + e3)"
    unfolding pf_def
    using fin_rnd[of "dmul (currentTempo st) (tempoScale st)" e3] fin_mul[OF assms(1,2)]
    by simp
  have f3: "isfinite x3 \<and> dval x3 = dval x2 / dval pf * (1 + e4)"
    unfolding x3_def using fin_rnd[of "ddiv x2 pf" e4] fin_div[of x2 pf] f2 fp assms(6)
    by simp
  have f4: "isfinite (rnd e5 (dadd x3 (lastTempoChangeS st)))
          \<and> dval (rnd e5 (dadd x3 (lastTempoChangeS st)))
             = (dval x3 + dval (lastTempoChangeS st)) * (1 + e5)"
    using fin_rnd[of "dadd x3 (lastTempoChangeS st)" e5] fin_add[of x3 "lastTempoChangeS st"]
          f3 assms(3)
    by simp
  have "ticksToMsecs_fl e1 e2 e3 e4 e5 st t = rnd e5 (dadd x3 (lastTempoChangeS st))"
    by (simp add: ticksToMsecs_fl_def x3_def x2_def x1_def pf_def)
  then show ?thesis using f4 f3 f2 f1 fp by simp
qed

lemma msecsToTicks_fl_value:
  assumes "isfinite (currentTempo st)" "isfinite (tempoScale st)"
      and "isfinite (lastTempoChangeS st)" "isfinite (lastTempoChangeT st)" "isfinite m"
  shows "isfinite (msecsToTicks_fl e6 e7 e8 e9 e10 st m)
       \<and> dval (msecsToTicks_fl e6 e7 e8 e9 e10 st m)
          = ((dval m - dval (lastTempoChangeS st)) * (1 + e6) * dval (currentTempo st) * (1 + e7)
               * dval (tempoScale st) * (1 + e8) / 125 * (1 + e9)
             + dval (lastTempoChangeT st)) * (1 + e10)"
proof -
  define y1 where "y1 = rnd e6 (dsub m (lastTempoChangeS st))"
  define y2 where "y2 = rnd e7 (dmul y1 (currentTempo st))"
  define y3 where "y3 = rnd e8 (dmul y2 (tempoScale st))"
  define y4 where "y4 = rnd e9 (ddiv y3 (Fin 125))"
  have f1: "isfinite y1 \<and> dval y1 = (dval m - dval (lastTempoChangeS st)) * (1 + e6)"
    unfolding y1_def using fin_rnd[of "dsub m (lastTempoChangeS st)" e6] fin_sub[OF assms(5,3)]
    by simp
  have f2: "isfinite y2 \<and> dval y2 = dval y1 * dval (currentTempo st) * (1 + e7)"
    unfolding y2_def using fin_rnd[of "dmul y1 (currentTempo st)" e7]
      fin_mul[of y1 "currentTempo st"] f1 assms(1)
    by simp
  have f3: "isfinite y3 \<and> dval y3 = dval y2 * dval (tempoScale st) * (1 + e8)"
    unfolding y3_def using fin_rnd[of "dmul y2 (tempoScale st)" e8]
      fin_mul[of y2 "tempoScale st"] f2 assms(2)
    by simp
  have f4: "isfinite y4 \<and> dval y4 = dval y3 / 125 * (1 + e9)"
    unfolding y4_def using fin_rnd[of "ddiv y3 (Fin 125)" e9] fin_div[of y3 "Fin 125"] f3
    by simp
  have f5: "isfinite (rnd e10 (dadd y4 (lastTempoChangeT st)))
          \<and> dval (rnd e10 (dadd y4 (lastTempoChangeT st)))
             = (dval y4 + dval (lastTempoChangeT st)) * (1 + e10)"
    using fin_rnd[of "dadd y4 (lastTempoChangeT st)" e10] fin_add[of y4 "lastTempoChangeT st"]
          f4 assms(4)
    by simp
  have "msecsToTicks_fl e6 e7 e8 e9 e10 st m = rnd e10 (dadd y4 (lastTempoChangeT st))"
    by (simp add: msecsToTicks_fl_def y4_def y3_def y2_def y1_def)
  then show ?thesis using f5 f4 f3 f2 f1 by simp
qed

lemma roundtrip_algebra:
  fixes t T S b s :: real
  assumes "b * s \<noteq> 0" "a3 \<noteq> 0"
  shows "((((t - T) * a1 * 125 * a2 / (b * s * a3) * a4 + S) * a5 - S) * a6 * b * a7 * s * a8 / 125 * a9
             + T) * a10 - t
       = (t - T) * (a1 * a2 * a4 * a5 * a6 * a7 * a8 * a9 * a10 / a3 - 1)
         + S * (a5 - 1) * (b * s / 125) * (a6 * a7 * a8 * a9 * a10)
         + T * (a10 - 1)"
  using assms by (simp add: field_simps)


lemma prod_list_bounds:
  fixes u :: real
  assumes "0 \<le> u" "u < 1" "\<forall>a \<in> set as. 1 - u \<le> a \<and> a \<le> 1 + u"
  shows "(1 - u) ^ length as \<le> prod_list as \<and> prod_list as \<le> (1 + u) ^ length as"
  using assms(3)
proof (induction as)
  case Nil
  show ?case by simp
next
  case (Cons a as)
  then have ih: "(1 - u) ^ length as \<le> prod_list as" "prod_list as \<le> (1 + u) ^ length as"
    and a: "1 - u \<le> a" "a \<le> 1 + u"
    by simp_all
  have n: "0 \<le> (1 - u) ^ length as" using assms(2) by simp
  have lo: "(1 - u) * (1 - u) ^ length as \<le> a * prod_list as"
    by (rule mult_mono[OF a(1) ih(1)]) (use a assms n in simp_all)
  have pn: "0 \<le> prod_list as" using n ih(1) by linarith
  have hi: "a * prod_list as \<le> (1 + u) * (1 + u) ^ length as"
    by (rule mult_mono[OF a(2) ih(2)]) (use assms pn in simp_all)
  from lo hi show ?case by simp
qed

lemma rel_err_interval: "\<bar>e\<bar> \<le> u \<Longrightarrow> 1 - u \<le> 1 + e \<and> 1 + e \<le> 1 + (u::real)"
  by (simp add: abs_le_iff)

lemma power_sum_ge_two:
  fixes u :: real
  assumes "0 \<le> u" "u < 1"
  shows "2 \<le> (1 - u) ^ 9 / (1 + u) + (1 + u) ^ 9 / (1 - u)"
proof -
  have b1: "1 + 10 * u \<le> (1 + u) ^ 10" using Bernoulli_inequality[of u 10] assms by simp
  have b2: "1 - 10 * u \<le> (1 - u) ^ 10" using Bernoulli_inequality[of "- u" 10] assms by simp
  have d: "0 < (1 + u) * (1 - u)" using assms by simp
  have "(1 - u) ^ 9 / (1 + u) + (1 + u) ^ 9 / (1 - u)
      = ((1 - u) ^ 9 * (1 - u) + (1 + u) ^ 9 * (1 + u)) / ((1 + u) * (1 - u))"
    using assms by (simp add: add_divide_distrib add_nonneg_eq_0_iff)
  also have "\<dots> = ((1 - u) ^ 10 + (1 + u) ^ 10) / ((1 + u) * (1 - u))"
    by (simp add: power_Suc2[symmetric] del: power_Suc2 power_Suc)
  finally have e: "(1 - u) ^ 9 / (1 + u) + (1 + u) ^ 9 / (1 - u)
      = ((1 - u) ^ 10 + (1 + u) ^ 10) / ((1 + u) * (1 - u))" .
  have "2 * ((1 + u) * (1 - u)) \<le> 2" using assms by (simp add: algebra_simps)
  also have "\<dots> \<le> (1 - u) ^ 10 + (1 + u) ^ 10" using b1 b2 by linarith
  finally have "2 \<le> ((1 - u) ^ 10 + (1 + u) ^ 10) / ((1 + u) * (1 - u))"
    using d by (simp add: le_divide_eq)
  then show ?thesis by (simp only: e)
qed

lemma ratio_bound:
  fixes u :: real
  assumes "0 \<le> u" "u < 1"
      and "\<forall>a \<in> set as. 1 - u \<le> a \<and> a \<le> 1 + u" "length as = 9"
      and "1 - u \<le> c" "c \<le> 1 + u"
  shows "\<bar>prod_list as / c - 1\<bar> \<le> (1 + u) ^ 9 / (1 - u) - 1"
proof -
  have pb: "(1 - u) ^ 9 \<le> prod_list as" "prod_list as \<le> (1 + u) ^ 9"
    using prod_list_bounds[OF assms(1,2,3)] assms(4) by simp_all
  have c0: "0 < c" using assms(2,5) by linarith
  have p0: "0 \<le> prod_list as" using pb(1) assms(2) by (meson less_eq_real_def order_trans zero_le_power diff_ge_0_iff_ge)
  have up: "prod_list as / c \<le> (1 + u) ^ 9 / (1 - u)"
    by (rule frac_le) (use assms pb c0 in simp_all)
  have lo: "(1 - u) ^ 9 / (1 + u) \<le> prod_list as / c"
    by (rule frac_le) (use assms pb c0 p0 in simp_all)
  from power_sum_ge_two[OF assms(1,2)] lo up show ?thesis by (simp add: abs_le_iff)
qed

lemma bound_num:
  "((1 + 1 / 2 ^ 53) ^ 9 / (1 - 1 / 2 ^ 53) - 1) * \<bar>960 - 480\<bar>
     + (1 / 2 ^ 53) * (1 + 1 / 2 ^ 53) ^ 5 * (\<bar>1000\<bar> * (120 * 1) / 125)
     + (1 / 2 ^ 53) * \<bar>480\<bar> \<le> (1 / 10 ^ 12 :: real)"
  by (simp add: field_simps)

text \<open>
  Claim C2. Let the tempo, the tempo scale, the anchor and \<open>t\<close> be finite, let the
  product of tempo and scale be positive, and let every operation of the two conversions
  be rounded with a relative error of at most \<open>u < 1\<close> (for doubles \<open>u = 2 ^ (-53)\<close>, as long
  as no operation overflows or underflows). Then converting \<open>t\<close> to milliseconds and
  back gives a finite number that differs from \<open>t\<close> by at most
  \<open>((1 + u) ^ 9 / (1 - u) - 1) * \<bar>t - T\<bar> + u * (1 + u) ^ 5 * \<bar>S\<bar> * tempo * scale / 125 + u * \<bar>T\<bar>\<close>,
  where \<open>(S, T)\<close> is the anchor: about \<open>10 * u\<close> relative to the distance from the
  anchor, and one rounding each of the anchor time, carried over to ticks, and of the
  anchor tick. Without rounding (\<open>u = 0\<close>) the two conversions are inverses.
\<close>

theorem tempo_roundtrip_tolerance:
  assumes "isfinite (currentTempo st)" "isfinite (tempoScale st)"
      and "isfinite (lastTempoChangeS st)" "isfinite (lastTempoChangeT st)" "isfinite t"
      and "0 < dval (currentTempo st) * dval (tempoScale st)"
      and "0 \<le> u" "u < 1"
      and "\<forall>e \<in> set [e1, e2, e3, e4, e5, e6, e7, e8, e9, e10]. \<bar>e\<bar> \<le> u"
  shows "isfinite (msecsToTicks_fl e6 e7 e8 e9 e10 st (ticksToMsecs_fl e1 e2 e3 e4 e5 st t))
       \<and> \<bar>dval (msecsToTicks_fl e6 e7 e8 e9 e10 st (ticksToMsecs_fl e1 e2 e3 e4 e5 st t)) - dval t\<bar>
          \<le> ((1 + u) ^ 9 / (1 - u) - 1) * \<bar>dval t - dval (lastTempoChangeT st)\<bar>
            + u * (1 + u) ^ 5
                * (\<bar>dval (lastTempoChangeS st)\<bar>
                    * (dval (currentTempo st) * dval (tempoScale st)) / 125)
            + u * \<bar>dval (lastTempoChangeT st)\<bar>"
proof -
  define b where "b = dval (currentTempo st)"
  define s where "s = dval (tempoScale st)"
  define S where "S = dval (lastTempoChangeS st)"
  define T where "T = dval (lastTempoChangeT st)"
  define a1 where "a1 = 1 + e1"
  define a2 where "a2 = 1 + e2"
  define a3 where "a3 = 1 + e3"
  define a4 where "a4 = 1 + e4"
  define a5 where "a5 = 1 + e5"
  define a6 where "a6 = 1 + e6"
  define a7 where "a7 = 1 + e7"
  define a8 where "a8 = 1 + e8"
  define a9 where "a9 = 1 + e9"
  define a10 where "a10 = 1 + e10"
  note adefs = a1_def a2_def a3_def a4_def a5_def a6_def a7_def a8_def a9_def a10_def
  have eb: "\<bar>e1\<bar> \<le> u" "\<bar>e2\<bar> \<le> u" "\<bar>e3\<bar> \<le> u" "\<bar>e4\<bar> \<le> u" "\<bar>e5\<bar> \<le> u"
           "\<bar>e6\<bar> \<le> u" "\<bar>e7\<bar> \<le> u" "\<bar>e8\<bar> \<le> u" "\<bar>e9\<bar> \<le> u" "\<bar>e10\<bar> \<le> u"
    using assms(9) by simp_all
  have ab: "1 - u \<le> a1 \<and> a1 \<le> 1 + u" "1 - u \<le> a2 \<and> a2 \<le> 1 + u" "1 - u \<le> a3 \<and> a3 \<le> 1 + u"
           "1 - u \<le> a4 \<and> a4 \<le> 1 + u" "1 - u \<le> a5 \<and> a5 \<le> 1 + u" "1 - u \<le> a6 \<and> a6 \<le> 1 + u"
           "1 - u \<le> a7 \<and> a7 \<le> 1 + u" "1 - u \<le> a8 \<and> a8 \<le> 1 + u" "1 - u \<le> a9 \<and> a9 \<le> 1 + u"
           "1 - u \<le> a10 \<and> a10 \<le> 1 + u"
    unfolding adefs by (rule rel_err_interval, fact)+
  have p: "0 < b * s" using assms(6) by (simp add: b_def s_def)
  have a3p: "0 < a3" using ab(3) assms(8) by linarith
  have "0 < b * s * a3" using p a3p by (rule mult_pos_pos)
  then have nz: "dval (currentTempo st) * dval (tempoScale st) * (1 + e3) \<noteq> 0"
    unfolding b_def s_def a3_def by (rule less_imp_neq[THEN not_sym])
  define ms where "ms = ticksToMsecs_fl e1 e2 e3 e4 e5 st t"
  have m: "isfinite ms"
    "dval ms = ((dval t - T) * a1 * 125 * a2 / (b * s * a3) * a4 + S) * a5"
    using ticksToMsecs_fl_value[OF assms(1-5) nz, of e1 e2 e4 e5]
    by (simp_all add: ms_def b_def s_def S_def T_def adefs)
  define tk where "tk = msecsToTicks_fl e6 e7 e8 e9 e10 st ms"
  have k: "isfinite tk"
    "dval tk = ((dval ms - S) * a6 * b * a7 * s * a8 / 125 * a9 + T) * a10"
    using msecsToTicks_fl_value[OF assms(1-4) m(1), of e6 e7 e8 e9 e10]
    by (simp_all add: tk_def b_def s_def S_def T_def adefs)
  define A where "A = prod_list [a1, a2, a4, a5, a6, a7, a8, a9, a10] / a3"
  define B where "B = prod_list [a6, a7, a8, a9, a10]"
  have err: "dval tk - dval t
       = (dval t - T) * (A - 1) + S * (a5 - 1) * (b * s / 125) * B + T * (a10 - 1)"
  proof -
    have "dval tk - dval t
       = (dval t - T) * (a1 * a2 * a4 * a5 * a6 * a7 * a8 * a9 * a10 / a3 - 1)
         + S * (a5 - 1) * (b * s / 125) * (a6 * a7 * a8 * a9 * a10)
         + T * (a10 - 1)"
      unfolding k(2) m(2)
      by (rule roundtrip_algebra[OF less_imp_neq[THEN not_sym, OF p] less_imp_neq[THEN not_sym, OF a3p]])
    then show ?thesis by (simp add: A_def B_def mult.assoc)
  qed
  have Ab: "\<bar>A - 1\<bar> \<le> (1 + u) ^ 9 / (1 - u) - 1"
    unfolding A_def by (rule ratio_bound[OF assms(7,8)]) (use ab in simp_all)
  have Bb: "\<bar>B\<bar> \<le> (1 + u) ^ 5"
  proof -
    have l5: "length [a6, a7, a8, a9, a10] = 5" by simp
    have i5: "\<forall>a \<in> set [a6, a7, a8, a9, a10]. 1 - u \<le> a \<and> a \<le> 1 + u" using ab by simp
    have "(1 - u) ^ 5 \<le> B \<and> B \<le> (1 + u) ^ 5"
      using prod_list_bounds[OF assms(7,8) i5] unfolding l5 B_def .
    moreover have "0 \<le> (1 - u) ^ 5" using assms(8) by simp
    ultimately show ?thesis by linarith
  qed
  have G0: "0 \<le> (1 + u) ^ 9 / (1 - u) - 1" using Ab by linarith
  have t1: "\<bar>(dval t - T) * (A - 1)\<bar> \<le> ((1 + u) ^ 9 / (1 - u) - 1) * \<bar>dval t - T\<bar>"
    using mult_left_mono[OF Ab, of "\<bar>dval t - T\<bar>"] by (simp add: abs_mult mult.commute)
  have e5b: "\<bar>a5 - 1\<bar> \<le> u" and e10b: "\<bar>a10 - 1\<bar> \<le> u"
    using eb by (simp_all add: a5_def a10_def)
  have q0: "0 \<le> \<bar>S\<bar> * (b * s) / 125" using p by simp
  have "\<bar>a5 - 1\<bar> * \<bar>B\<bar> \<le> u * (1 + u) ^ 5"
    by (rule mult_mono[OF e5b Bb]) (use assms(7) in simp_all)
  then have "(\<bar>S\<bar> * (b * s) / 125) * (\<bar>a5 - 1\<bar> * \<bar>B\<bar>) \<le> (\<bar>S\<bar> * (b * s) / 125) * (u * (1 + u) ^ 5)"
    by (rule mult_left_mono[OF _ q0])
  moreover have "\<bar>S * (a5 - 1) * (b * s / 125) * B\<bar> = (\<bar>S\<bar> * (b * s) / 125) * (\<bar>a5 - 1\<bar> * \<bar>B\<bar>)"
  proof -
    have "\<bar>b * s\<bar> = b * s" using p by (simp only: abs_of_pos)
    then have "\<bar>b * s / 125\<bar> = b * s / 125" by simp
    then show ?thesis by (simp only: abs_mult) (simp add: mult.assoc mult.left_commute)
  qed
  ultimately have t2: "\<bar>S * (a5 - 1) * (b * s / 125) * B\<bar> \<le> u * (1 + u) ^ 5 * (\<bar>S\<bar> * (b * s) / 125)"
    by (simp add: mult.commute)
  have t3: "\<bar>T * (a10 - 1)\<bar> \<le> u * \<bar>T\<bar>"
    using mult_left_mono[OF e10b, of "\<bar>T\<bar>"] by (simp add: abs_mult mult.commute)
  have "\<bar>dval tk - dval t\<bar>
      \<le> \<bar>(dval t - T) * (A - 1)\<bar> + \<bar>S * (a5 - 1) * (b * s / 125) * B\<bar> + \<bar>T * (a10 - 1)\<bar>"
    unfolding err by linarith
  with t1 t2 t3 have "\<bar>dval tk - dval t\<bar>
      \<le> ((1 + u) ^ 9 / (1 - u) - 1) * \<bar>dval t - T\<bar>
        + u * (1 + u) ^ 5 * (\<bar>S\<bar> * (b * s) / 125) + u * \<bar>T\<bar>"
    by linarith
  with k(1) show ?thesis
    unfolding tk_def ms_def b_def s_def S_def T_def by simp
qed

theorem tempo_roundtrip_tolerance_witness:
  "isfinite (currentTempo (startup\<lparr>currentTempo := Fin 120, lastTempoChangeS := Fin 1000,
                                     lastTempoChangeT := Fin 480\<rparr>))
   \<and> (0::real) < dval (currentTempo (startup\<lparr>currentTempo := Fin 120, lastTempoChangeS := Fin 1000,
                                     lastTempoChangeT := Fin 480\<rparr>))
                 * dval (tempoScale (startup\<lparr>currentTempo := Fin 120, lastTempoChangeS := Fin 1000,
                                     lastTempoChangeT := Fin 480\<rparr>))
   \<and> \<bar>0\<bar> \<le> (1 / 2 ^ 53 :: real) \<and> \<bar>1 / 2 ^ 53\<bar> \<le> (1 / 2 ^ 53 :: real)
   \<and> \<bar>- (1 / 2 ^ 53)\<bar> \<le> (1 / 2 ^ 53 :: real)
   \<and> \<bar>dval (msecsToTicks_fl 0 0 0 (- (1 / 2 ^ 53)) 0
              (startup\<lparr>currentTempo := Fin 120, lastTempoChangeS := Fin 1000,
                        lastTempoChangeT := Fin 480\<rparr>)
              (ticksToMsecs_fl 0 0 0 (1 / 2 ^ 53) (1 / 2 ^ 53)
                 (startup\<lparr>currentTempo := Fin 120, lastTempoChangeS := Fin 1000,
                           lastTempoChangeT := Fin 480\<rparr>) (Fin 960))) - 960\<bar>
       \<le> 1 / 10 ^ 12"
proof -
  define st where "st = startup\<lparr>currentTempo := Fin 120, lastTempoChangeS := Fin 1000,
                                     lastTempoChangeT := Fin 480\<rparr>"
  have f: "isfinite (currentTempo st)" "isfinite (tempoScale st)"
          "isfinite (lastTempoChangeS st)" "isfinite (lastTempoChangeT st)" "isfinite (Fin 960)"
    by (simp_all add: st_def startup_def)
  have p: "0 < dval (currentTempo st) * dval (tempoScale st)"
    by (simp add: st_def startup_def)
  have u: "(0::real) \<le> 1 / 2 ^ 53" "(1 / 2 ^ 53 :: real) < 1" by simp_all
  have e: "\<forall>e \<in> set [0, 0, 0, 1 / 2 ^ 53, 1 / 2 ^ 53, 0, 0, 0, - (1 / 2 ^ 53), 0]. \<bar>e\<bar> \<le> (1 / 2 ^ 53 :: real)"
    by simp
  have v: "dval (Fin 960) = 960" "dval (lastTempoChangeT st) = 480" "dval (lastTempoChangeS st) = 1000"
      "dval (currentTempo st) = 120" "dval (tempoScale st) = 1"
    by (simp_all add: st_def startup_def)
  have "\<bar>dval (msecsToTicks_fl 0 0 0 (- (1 / 2 ^ 53)) 0 st
               (ticksToMsecs_fl 0 0 0 (1 / 2 ^ 53) (1 / 2 ^ 53) st (Fin 960))) - 960\<bar>
       \<le> ((1 + 1 / 2 ^ 53) ^ 9 / (1 - 1 / 2 ^ 53) - 1) * \<bar>960 - 480\<bar>
     + (1 / 2 ^ 53) * (1 + 1 / 2 ^ 53) ^ 5 * (\<bar>1000\<bar> * (120 * 1) / 125)
     + (1 / 2 ^ 53) * \<bar>480\<bar>"
    using tempo_roundtrip_tolerance[OF f p u e, THEN conjunct2] unfolding v .
  then have "\<bar>dval (msecsToTicks_fl 0 0 0 (- (1 / 2 ^ 53)) 0 st
               (ticksToMsecs_fl 0 0 0 (1 / 2 ^ 53) (1 / 2 ^ 53) st (Fin 960))) - 960\<bar>
       \<le> 1 / 10 ^ 12"
    using bound_num by (rule order_trans)
  with f(1) p show ?thesis unfolding st_def by simp
qed

text \<open>
  With an infinite tempo the round trip is NaN. The tempo event \<open>ff 51 00 00 00\<close> has 0
  microseconds per beat, so the dispatch loop sets the tempo to \<open>6e7 / 0 = +\<infinity>\<close>; the
  product of tempo and scale is positive. Then \<open>ticksToMsecs 10 = 1250 / \<infinity> + 0 = 0\<close>
  and \<open>msecsToTicks 0 = 0 * \<infinity> * 1 / 125 + 0\<close>, which is NaN.
\<close>

theorem tempo_roundtrip_tolerance_counterexample:
  "dispatch_one (Fin 0) (Fin 0)
     \<lparr>q_devNum = - 1, q_time = Fin 0, q_count = 0, q_msg = [0xff, 0x51, 0, 0, 0], q_tk = 0\<rparr> startup
     = Some (startup\<lparr>currentTempo := PInf\<rparr>)
   \<and> dgt (dmul (currentTempo (startup\<lparr>currentTempo := PInf\<rparr>))
                (tempoScale (startup\<lparr>currentTempo := PInf\<rparr>))) (Fin 0)
   \<and> ticksToMsecs (startup\<lparr>currentTempo := PInf\<rparr>) (Fin 10) = Fin 0
   \<and> msecsToTicks (startup\<lparr>currentTempo := PInf\<rparr>) (Fin 0) = NaN"
  by (simp add: dispatch_one_def startup_def DEV_LOOPBACK_def M_TEMPO_def usecsPerBeat_def
        ticksToMsecs_def msecsToTicks_def double_defs double_of_int_def Let_def)


section \<open>Properties of queueing and dispatch\<close>

lemma midimsg_size_short:
  assumes "128 \<le> s" "s < 240"
  shows "midimsg_size s = (if 192 \<le> s \<and> s < 224 then 2 else 3)"
proof -
  have i: "drop_bit 4 s AND 7 = (s div 16) mod 8"
  proof -
    have "(7::int) = mask 3" by (simp add: mask_eq_exp_minus_1)
    then have "drop_bit 4 s AND 7 = take_bit 3 (drop_bit 4 s)"
      by (simp only: take_bit_eq_mask)
    then show ?thesis by (simp add: take_bit_eq_mod drop_bit_eq_div)
  qed
  from assms have "s div 16 \<in> {8, 9, 10, 11, 12, 13, 14}" by auto
  then consider "s div 16 = 8" | "s div 16 = 9" | "s div 16 = 10" | "s div 16 = 11"
    | "s div 16 = 12" | "s div 16 = 13" | "s div 16 = 14" by auto
  then show ?thesis
  proof cases
    case 1 then show ?thesis using assms by (simp add: midimsg_size_def midimsg_size_table_def i) linarith?
  next
    case 2 then show ?thesis using assms by (simp add: midimsg_size_def midimsg_size_table_def i) linarith?
  next
    case 3 then show ?thesis using assms by (simp add: midimsg_size_def midimsg_size_table_def i) linarith?
  next
    case 4 then show ?thesis using assms by (simp add: midimsg_size_def midimsg_size_table_def i) linarith?
  next
    case 5 then show ?thesis using assms by (simp add: midimsg_size_def midimsg_size_table_def i) linarith?
  next
    case 6 then show ?thesis using assms by (simp add: midimsg_size_def midimsg_size_table_def i) linarith?
  next
    case 7 then show ?thesis using assms by (simp add: midimsg_size_def midimsg_size_table_def i) linarith?
  qed
qed


lemma queueMessage_empty: "queueMessage devNum ticks t [] st = (True, st)"
  by (simp add: queueMessage_def)

lemma queueMessage_not_open:
  "m \<noteq> [] \<Longrightarrow> devNum \<ge> 0 \<Longrightarrow> \<not> isOpenedDevice devNum st \<Longrightarrow>
   queueMessage devNum ticks t m st = (True, st)"
  by (auto simp: queueMessage_def isOpenedDevice_def)

lemma queueMessage_ok:
  "m \<noteq> [] \<Longrightarrow> isOpenedDevice devNum st \<Longrightarrow>
   queueMessage devNum ticks t m st =
     (False, enqueue \<lparr>q_devNum = devNum, q_time = ticks, q_count = currentCount st,
                      q_msg = m, q_tk = t\<rparr>
               (st\<lparr>currentCount := currentCount st + 1\<rparr>))"
  by (auto simp: queueMessage_def isOpenedDevice_def Let_def split: if_splits)

text \<open>
  What the facade does in the cases of claim C8 other than an empty message for
  LOOPBACK: for every other device an empty message and a short message whose length
  differs from the length table are reported as the value error and the state is left as
  it is; a non-empty message for LOOPBACK, and a message that begins with \<open>0xF0\<close> or
  \<open>0xFF\<close> for an open or negative device, is enqueued whatever its length; a valid
  message for a device \<open>d \<ge> 0\<close> that is not open is reported as the runtime error and the
  state is left as it is.
\<close>

lemma queue_message_cases:
  "(devNum \<noteq> DEV_LOOPBACK \<and>
      (m = [] \<or> (0x80 \<le> m ! 0 \<and> m ! 0 < 0xf0 \<and> int (length m) \<noteq> midimsg_size (uint (m ! 0))))
    \<longrightarrow> takt_queue_message devNum ticks t m st
          = (ValueError ''invalid MIDI (or meta) message'', st))
   \<and> (devNum = DEV_LOOPBACK \<and> m = []
    \<longrightarrow> fst (takt_queue_message devNum ticks t m st) \<noteq> Returned
        \<and> snd (takt_queue_message devNum ticks t m st) = st)
   \<and> (devNum = DEV_LOOPBACK \<and> m \<noteq> []
    \<longrightarrow> takt_queue_message devNum ticks t m st
          = (Returned, enqueue \<lparr>q_devNum = devNum, q_time = ticks, q_count = currentCount st,
                                q_msg = m, q_tk = t\<rparr>
                         (st\<lparr>currentCount := currentCount st + 1\<rparr>)))
   \<and> (m \<noteq> [] \<and> (m ! 0 = 0xf0 \<or> m ! 0 = 0xff) \<and> isOpenedDevice devNum st
    \<longrightarrow> takt_queue_message devNum ticks t m st
          = (Returned, enqueue \<lparr>q_devNum = devNum, q_time = ticks, q_count = currentCount st,
                                q_msg = m, q_tk = t\<rparr>
                         (st\<lparr>currentCount := currentCount st + 1\<rparr>)))
   \<and> (devNum \<ge> 0 \<and> \<not> isOpenedDevice devNum st \<and> m \<noteq> [] \<and>
      ((0x80 \<le> m ! 0 \<and> m ! 0 < 0xf0 \<and> int (length m) = midimsg_size (uint (m ! 0)))
       \<or> m ! 0 = 0xf0 \<or> m ! 0 = 0xff)
    \<longrightarrow> takt_queue_message devNum ticks t m st = (RuntimeError ''device is not opened'', st))
   \<and> (\<forall>s. 128 \<le> s \<and> s < 240 \<longrightarrow> midimsg_size s = (if 192 \<le> s \<and> s < 224 then 2 else 3))"
proof (intro conjI impI allI)
  assume a: "devNum \<noteq> DEV_LOOPBACK \<and>
      (m = [] \<or> (0x80 \<le> m ! 0 \<and> m ! 0 < 0xf0 \<and> int (length m) \<noteq> midimsg_size (uint (m ! 0))))"
  then have "\<not> (length m > 0 \<and>
            ((m ! 0 \<ge> 0x80 \<and> m ! 0 < 0xf0 \<and> int (length m) = midimsg_size (uint (m ! 0)))
             \<or> m ! 0 = 0xf0 \<or> m ! 0 = 0xff))"
    by auto
  with a show "takt_queue_message devNum ticks t m st
          = (ValueError ''invalid MIDI (or meta) message'', st)"
    unfolding takt_queue_message_def by simp
next
  assume a: "devNum = DEV_LOOPBACK \<and> m = []"
  then show "fst (takt_queue_message devNum ticks t m st) \<noteq> Returned"
    by (simp add: takt_queue_message_def queueMessage_empty)
  from a show "snd (takt_queue_message devNum ticks t m st) = st"
    by (simp add: takt_queue_message_def queueMessage_empty)
next
  assume a: "devNum = DEV_LOOPBACK \<and> m \<noteq> []"
  then have "isOpenedDevice devNum st" by (simp add: isOpenedDevice_def DEV_LOOPBACK_def)
  with a show "takt_queue_message devNum ticks t m st
          = (Returned, enqueue \<lparr>q_devNum = devNum, q_time = ticks, q_count = currentCount st,
                                q_msg = m, q_tk = t\<rparr>
                         (st\<lparr>currentCount := currentCount st + 1\<rparr>))"
    by (simp add: takt_queue_message_def queueMessage_ok)
next
  assume a: "m \<noteq> [] \<and> (m ! 0 = 0xf0 \<or> m ! 0 = 0xff) \<and> isOpenedDevice devNum st"
  then show "takt_queue_message devNum ticks t m st
          = (Returned, enqueue \<lparr>q_devNum = devNum, q_time = ticks, q_count = currentCount st,
                                q_msg = m, q_tk = t\<rparr>
                         (st\<lparr>currentCount := currentCount st + 1\<rparr>))"
    by (auto simp: takt_queue_message_def queueMessage_ok)
next
  assume a: "devNum \<ge> 0 \<and> \<not> isOpenedDevice devNum st \<and> m \<noteq> [] \<and>
      ((0x80 \<le> m ! 0 \<and> m ! 0 < 0xf0 \<and> int (length m) = midimsg_size (uint (m ! 0)))
       \<or> m ! 0 = 0xf0 \<or> m ! 0 = 0xff)"
  then have "queueMessage devNum ticks t m st = (True, st)"
    by (simp add: queueMessage_not_open)
  with a show "takt_queue_message devNum ticks t m st = (RuntimeError ''device is not opened'', st)"
    by (auto simp: takt_queue_message_def)
next
  fix s :: int
  assume "128 \<le> s \<and> s < 240"
  then show "midimsg_size s = (if 192 \<le> s \<and> s < 224 then 2 else 3)"
    using midimsg_size_short[of s] by simp
qed

text \<open>
  Claim C8 at the input where the code departs from it. The claim has an empty message
  reported as the value error for every device. For LOOPBACK the facade skips the whole
  test, the empty message reaches \<open>MidiOut::queueMessage\<close>, which returns its error flag
  for an invalid message, and the facade reports that flag as the runtime error of a
  device that is not opened, although \<open>isOpenedDevice\<close> holds of LOOPBACK. The same
  empty message for DUMMY is reported as the value error. In both cases the state, and
  so the queue, is left as it is.
\<close>

theorem queue_message_loopback_empty:
  "takt_queue_message DEV_LOOPBACK (Fin 0) 0 [] startup
     = (RuntimeError ''device is not opened'', startup)
   \<and> isOpenedDevice DEV_LOOPBACK startup
   \<and> takt_queue_message DEV_DUMMY (Fin 0) 0 [] startup
     = (ValueError ''invalid MIDI (or meta) message'', startup)"
  by (simp add: takt_queue_message_def queueMessage_def isOpenedDevice_def
        DEV_LOOPBACK_def DEV_DUMMY_def)




section \<open>Properties of the heap and of the dispatch order\<close>

lemma is_heap_heap_from: "is_heap cmp xs \<longleftrightarrow> heap_from cmp 0 xs"
  by (simp add: is_heap_def heap_from_def)

lemma parent_child: "0 < (j::nat) \<Longrightarrow> (j - 1) div 2 = i \<longleftrightarrow> j = 2 * i + 1 \<or> j = 2 * i + 2"
  by (cases j) auto

lemma mset_sift_down: "mset (sift_down cmp xs i) = mset xs"
proof (induction cmp xs i rule: sift_down.induct)
  case (1 cmp xs i)
  show ?case
  proof (cases "2 * i + 1 < length xs")
    case False
    then show ?thesis by (subst sift_down.simps) simp
  next
    case True
    define c where "c = (if 2 * i + 2 < length xs \<and> cmp (xs ! (2 * i + 1)) (xs ! (2 * i + 2))
                     then 2 * i + 2 else 2 * i + 1)"
    have cl: "c < length xs" "i < length xs" using True by (auto simp: c_def)
    show ?thesis
    proof (cases "cmp (xs ! i) (xs ! c)")
      case False
      with True show ?thesis by (subst sift_down.simps) (simp add: c_def Let_def)
    next
      case sw: True
      have "sift_down cmp xs i = sift_down cmp (xs[i := xs ! c, c := xs ! i]) c"
        using True sw by (subst sift_down.simps) (simp add: c_def Let_def)
      moreover have "mset (sift_down cmp (xs[i := xs ! c, c := xs ! i]) c)
                   = mset (xs[i := xs ! c, c := xs ! i])"
        using "1.IH"[OF True c_def] sw by simp
      ultimately show ?thesis using cl by (simp add: mset_swap)
    qed
  qed
qed

lemma set_sift_down: "set (sift_down cmp xs i) = set xs"
  using mset_sift_down[of cmp xs i] by (metis set_mset_mset)

lemma sift_down_heap:
  assumes "swo_on (set xs) cmp" "lo \<le> i" "sift_pre cmp lo xs i"
  shows "heap_from cmp lo (sift_down cmp xs i)"
  using assms
proof (induction cmp xs i rule: sift_down.induct)
  case (1 cmp xs i)
  note swo = "1.prems"(1) and lo = "1.prems"(2) and pre = "1.prems"(3)
  from pre have pa: "\<And>j. 0 < j \<Longrightarrow> j < length xs \<Longrightarrow> lo \<le> (j - 1) div 2 \<Longrightarrow> (j - 1) div 2 \<noteq> i
          \<Longrightarrow> \<not> cmp (xs ! ((j - 1) div 2)) (xs ! j)"
    unfolding sift_pre_def by blast
  from pre have pb: "\<And>c. 0 < i \<Longrightarrow> lo \<le> (i - 1) div 2 \<Longrightarrow> c < length xs \<Longrightarrow> 0 < c \<Longrightarrow> (c - 1) div 2 = i
        \<Longrightarrow> \<not> cmp (xs ! ((i - 1) div 2)) (xs ! c)"
    unfolding sift_pre_def by blast
  from swo have asym: "\<And>a b. a \<in> set xs \<Longrightarrow> b \<in> set xs \<Longrightarrow> cmp a b \<Longrightarrow> \<not> cmp b a"
    and ntr: "\<And>a b c. a \<in> set xs \<Longrightarrow> b \<in> set xs \<Longrightarrow> c \<in> set xs \<Longrightarrow> \<not> cmp a b \<Longrightarrow> \<not> cmp b c \<Longrightarrow> \<not> cmp a c"
    unfolding swo_on_def by blast+
  show ?case
  proof (cases "2 * i + 1 < length xs")
    case False
    have "sift_down cmp xs i = xs" using False by (subst sift_down.simps) simp
    moreover have "heap_from cmp lo xs"
      unfolding heap_from_def
    proof (intro allI impI)
      fix j assume j: "0 < j \<and> j < length xs \<and> lo \<le> (j - 1) div 2"
      then have "(j - 1) div 2 \<noteq> i" using False parent_child[of j i] by auto
      with j show "\<not> cmp (xs ! ((j - 1) div 2)) (xs ! j)" using pa by simp
    qed
    ultimately show ?thesis by simp
  next
    case True
    define l where "l = 2 * i + 1"
    define r where "r = 2 * i + 2"
    define c where "c = (if r < length xs \<and> cmp (xs ! l) (xs ! r) then r else l)"
    define o' where "o' = (if c = l then r else l)"
    have il: "i < length xs" "l < length xs" "c < length xs" using True by (auto simp: c_def l_def r_def)
    have cc: "c = l \<or> c = r" by (simp add: c_def)
    have c_def': "c = (if 2 * i + 2 < length xs \<and> cmp (xs ! (2 * i + 1)) (xs ! (2 * i + 2))
                     then 2 * i + 2 else 2 * i + 1)"
      by (simp add: c_def l_def r_def)
    have mem: "\<And>k. k < length xs \<Longrightarrow> xs ! k \<in> set xs" by simp
    \<comment> \<open>the chosen child is not below the other child\<close>
    have big: "\<And>k. k < length xs \<Longrightarrow> k = l \<or> k = r \<Longrightarrow> \<not> cmp (xs ! c) (xs ! k)"
    proof -
      fix k assume k: "k < length xs" "k = l \<or> k = r"
      show "\<not> cmp (xs ! c) (xs ! k)"
      proof (cases "k = c")
        case True
        then show ?thesis using asym[OF mem[OF il(3)] mem[OF il(3)]] by auto
      next
        case False
        show ?thesis
        proof (cases "r < length xs \<and> cmp (xs ! l) (xs ! r)")
          case True
          then have "c = r" by (simp add: c_def)
          with False k have "k = l" by simp
          with True \<open>c = r\<close> show ?thesis using asym[OF mem[OF il(2)], of "xs ! r"] by auto
        next
          case f: False
          then have "c = l" unfolding c_def by (simp only: if_False)
          with False k have "k = r" by simp
          with f k(1) \<open>c = l\<close> show ?thesis by blast
        qed
      qed
    qed
    show ?thesis
    proof (cases "cmp (xs ! i) (xs ! c)")
      case False
      have "sift_down cmp xs i = xs"
        using True False by (subst sift_down.simps) (simp add: c_def' Let_def)
      moreover have "heap_from cmp lo xs"
        unfolding heap_from_def
      proof (intro allI impI)
        fix j assume j: "0 < j \<and> j < length xs \<and> lo \<le> (j - 1) div 2"
        show "\<not> cmp (xs ! ((j - 1) div 2)) (xs ! j)"
        proof (cases "(j - 1) div 2 = i")
          case False
          with j show ?thesis using pa by simp
        next
          case pj: True
          with j have "j = l \<or> j = r" using parent_child[of j i] by (simp add: l_def r_def)
          with j have "\<not> cmp (xs ! c) (xs ! j)" using big by simp
          with False have "\<not> cmp (xs ! i) (xs ! j)"
            using ntr[OF mem[OF il(1)] mem[OF il(3)], of "xs ! j"] j by simp
          with pj show ?thesis by simp
        qed
      qed
      ultimately show ?thesis by simp
    next
      case sw: True
      define ys where "ys = xs[i := xs ! c, c := xs ! i]"
      have ic: "i \<noteq> c" "i < c" using cc by (auto simp: l_def r_def)
      have eq: "sift_down cmp xs i = sift_down cmp ys c"
        using True sw by (subst sift_down.simps) (simp add: c_def' Let_def ys_def)
      have sset: "set ys = set xs" unfolding ys_def using il by (simp add: set_swap)
      have len: "length ys = length xs" by (simp add: ys_def)
      have yi: "ys ! i = xs ! c" using ic il by (simp add: ys_def)
      have yc: "ys ! c = xs ! i" using ic il by (simp add: ys_def)
      have yo: "\<And>k. k \<noteq> i \<Longrightarrow> k \<noteq> c \<Longrightarrow> ys ! k = xs ! k" by (simp add: ys_def)
      have pre': "sift_pre cmp lo ys c"
        unfolding sift_pre_def
      proof (intro conjI allI impI)
        fix j assume j: "0 < j \<and> j < length ys \<and> lo \<le> (j - 1) div 2 \<and> (j - 1) div 2 \<noteq> c"
        then have jl: "j < length xs" and j0: "0 < j" and jlo: "lo \<le> (j - 1) div 2"
          and jc: "(j - 1) div 2 \<noteq> c" by (simp_all add: len)
        show "\<not> cmp (ys ! ((j - 1) div 2)) (ys ! j)"
        proof (cases "(j - 1) div 2 = i")
          case pj: True
          then have jj: "j = l \<or> j = r" using parent_child[of j i] j0 by (simp add: l_def r_def)
          show ?thesis
          proof (cases "j = c")
            case True
            then show ?thesis using pj yi yc asym[OF mem[OF il(1)] mem[OF il(3)]] sw by simp
          next
            case False
            with pj have "ys ! j = xs ! j" using yo[of j] j0 by (cases "j = i") auto
            then show ?thesis using pj yi big[OF jl jj] by simp
          qed
        next
          case npj: False
          show ?thesis
          proof (cases "j = i")
            case True
            then have "0 < i" "lo \<le> (i - 1) div 2" using j0 jlo by simp_all
            then have "\<not> cmp (xs ! ((i - 1) div 2)) (xs ! c)"
              using pb[of c] il cc by (auto simp: l_def r_def)
            moreover have "ys ! ((i - 1) div 2) = xs ! ((i - 1) div 2)"
              using yo[of "(i - 1) div 2"] \<open>0 < i\<close> ic by (simp add: l_def r_def) linarith?
            ultimately show ?thesis using True yi by simp
          next
            case False
            have "j \<noteq> c" using npj cc j0 parent_child[of j i] by (auto simp: l_def r_def)
            with False have "ys ! j = xs ! j" by (simp add: yo)
            moreover have "ys ! ((j - 1) div 2) = xs ! ((j - 1) div 2)"
              using npj jc by (simp add: yo)
            ultimately show ?thesis using pa[OF j0 jl jlo npj] by simp
          qed
        qed
      next
        fix d assume "0 < c \<and> lo \<le> (c - 1) div 2" and d: "d < length ys \<and> 0 < d \<and> (d - 1) div 2 = c"
        have pc: "(c - 1) div 2 = i" using cc by (auto simp: l_def r_def)
        from d have dd: "d \<noteq> i" "d \<noteq> c" using ic by auto linarith?
        with d have "ys ! d = xs ! d" by (simp add: yo)
        moreover have "\<not> cmp (xs ! c) (xs ! d)"
          using pa[of d] d lo ic by (simp add: len)
        ultimately show "\<not> cmp (ys ! ((c - 1) div 2)) (ys ! d)" using pc yi by simp
      qed
      have "heap_from cmp lo (sift_down cmp ys c)"
        using "1.IH"[OF True c_def' sw] swo sset lo ic pre' by (simp add: ys_def)
      with eq show ?thesis by simp
    qed
  qed
qed

lemma swo_on_subset: "swo_on S cmp \<Longrightarrow> T \<subseteq> S \<Longrightarrow> swo_on T cmp"
  unfolding swo_on_def by blast

lemma heap_from_start: "heap_from cmp (length xs div 2) xs"
  unfolding heap_from_def
proof (intro allI impI)
  fix j assume "0 < j \<and> j < length xs \<and> length xs div 2 \<le> (j - 1) div 2"
  then have False by (cases j) auto
  then show "\<not> cmp (xs ! ((j - 1) div 2)) (xs ! j)" ..
qed

lemma make_heap_fold:
  "swo_on (set xs) cmp \<Longrightarrow> heap_from cmp k xs \<Longrightarrow>
   heap_from cmp 0 (fold (\<lambda>i ys. sift_down cmp ys i) (rev [0..<k]) xs)"
proof (induction k arbitrary: xs)
  case 0
  then show ?case by simp
next
  case (Suc k)
  have pre: "sift_pre cmp k xs k"
    unfolding sift_pre_def
  proof (intro conjI allI impI)
    fix j assume "0 < j \<and> j < length xs \<and> k \<le> (j - 1) div 2 \<and> (j - 1) div 2 \<noteq> k"
    then have "0 < j \<and> j < length xs \<and> Suc k \<le> (j - 1) div 2" by simp
    with Suc.prems(2) show "\<not> cmp (xs ! ((j - 1) div 2)) (xs ! j)"
      unfolding heap_from_def by blast
  next
    fix c assume "0 < k \<and> k \<le> (k - 1) div 2"
    then have False by (cases k) auto
    then show "\<not> cmp (xs ! ((k - 1) div 2)) (xs ! c)" ..
  qed
  have h: "heap_from cmp k (sift_down cmp xs k)"
    by (rule sift_down_heap[OF Suc.prems(1) order_refl pre])
  have s: "swo_on (set (sift_down cmp xs k)) cmp"
    using Suc.prems(1) by (simp add: set_sift_down)
  show ?case using Suc.IH[OF s h] by simp
qed

lemma mset_make_heap_fold:
  "mset (fold (\<lambda>i ys. sift_down cmp ys i) is xs) = mset xs"
  by (induction "is" arbitrary: xs) (simp_all add: mset_sift_down)

lemma mset_make_heap: "mset (make_heap cmp xs) = mset xs"
  by (simp add: make_heap_def mset_make_heap_fold)

lemma make_heap_is_heap: "swo_on (set xs) cmp \<Longrightarrow> is_heap cmp (make_heap cmp xs)"
  unfolding is_heap_heap_from make_heap_def
  by (rule make_heap_fold[OF _ heap_from_start])

lemma heap_top:
  assumes "is_heap cmp xs" "swo_on (set xs) cmp" "j < length xs"
  shows "\<not> cmp (xs ! 0) (xs ! j)"
  using assms(3)
proof (induction j rule: less_induct)
  case (less j)
  from assms(2) have asym: "\<And>a b. a \<in> set xs \<Longrightarrow> b \<in> set xs \<Longrightarrow> cmp a b \<Longrightarrow> \<not> cmp b a"
    and ntr: "\<And>a b c. a \<in> set xs \<Longrightarrow> b \<in> set xs \<Longrightarrow> c \<in> set xs \<Longrightarrow> \<not> cmp a b \<Longrightarrow> \<not> cmp b c \<Longrightarrow> \<not> cmp a c"
    unfolding swo_on_def by blast+
  show ?case
  proof (cases "j = 0")
    case True
    with less.prems show ?thesis using asym[of "xs ! 0" "xs ! 0"] by auto
  next
    case False
    then have p: "(j - 1) div 2 < j" by (cases j) auto
    with less.prems have pl: "(j - 1) div 2 < length xs" by simp
    have 1: "\<not> cmp (xs ! 0) (xs ! ((j - 1) div 2))" by (rule less.IH[OF p pl])
    have 2: "\<not> cmp (xs ! ((j - 1) div 2)) (xs ! j)"
      using assms(1) False less.prems unfolding is_heap_def by simp
    have z: "0 < length xs" using less.prems by (cases xs) auto
    show ?thesis
      by (rule ntr[OF nth_mem[OF z] nth_mem[OF pl] nth_mem[OF less.prems] 1 2])
  qed
qed

lemma pop_heap_short: "length xs \<le> 1 \<Longrightarrow> butlast (pop_heap cmp xs) = []"
  by (cases xs) (simp_all add: pop_heap_def)

lemma pop_heap_long:
  "1 < length xs \<Longrightarrow> butlast (pop_heap cmp xs) = sift_down cmp (last xs # tl (butlast xs)) 0"
  by (simp add: pop_heap_def)

lemma mset_pop_heap:
  assumes "xs \<noteq> []"
  shows "mset (butlast (pop_heap cmp xs)) = mset xs - {#xs ! 0#}"
proof (cases "length xs \<le> 1")
  case True
  with assms obtain x where "xs = [x]" by (cases xs) auto
  then show ?thesis by (simp add: pop_heap_def)
next
  case False
  then obtain x ys y where xs: "xs = x # ys @ [y]"
    by (cases xs; cases "tl xs" rule: rev_cases) auto
  then have "last xs # tl (butlast xs) = y # ys" by (simp add: butlast_append)
  with False xs show ?thesis by (simp add: pop_heap_long mset_sift_down)
qed

lemma pop_heap_is_heap:
  assumes "is_heap cmp xs" "swo_on (set xs) cmp"
  shows "is_heap cmp (butlast (pop_heap cmp xs))"
proof (cases "length xs \<le> 1")
  case True
  then show ?thesis by (simp add: pop_heap_short is_heap_def)
next
  case False
  then obtain x ys y where xs: "xs = x # ys @ [y]"
    by (cases xs; cases "tl xs" rule: rev_cases) auto
  define zs where "zs = y # ys"
  have zs: "last xs # tl (butlast xs) = zs" using xs by (simp add: zs_def butlast_append)
  have sub: "set zs \<subseteq> set xs" using xs by (auto simp: zs_def)
  have nth: "\<And>k. 0 < k \<Longrightarrow> k < length zs \<Longrightarrow> zs ! k = xs ! k"
    using xs by (auto simp: zs_def nth_Cons nth_append split: nat.splits)
  have pre: "sift_pre cmp 0 zs 0"
    unfolding sift_pre_def
  proof (intro conjI allI impI)
    fix j assume j: "0 < j \<and> j < length zs \<and> 0 \<le> (j - 1) div 2 \<and> (j - 1) div 2 \<noteq> 0"
    then have "zs ! j = xs ! j" "zs ! ((j - 1) div 2) = xs ! ((j - 1) div 2)"
      using nth[of j] nth[of "(j - 1) div 2"] by auto
    moreover have "j < length xs" using j xs by (simp add: zs_def)
    ultimately show "\<not> cmp (zs ! ((j - 1) div 2)) (zs ! j)"
      using assms(1) j unfolding is_heap_def by simp
  next
    fix c assume "(0::nat) < 0 \<and> 0 \<le> (0 - 1) div (2::nat)"
    then show "\<not> cmp (zs ! ((0 - 1) div 2)) (zs ! c)" by simp
  qed
  have "heap_from cmp 0 (sift_down cmp zs 0)"
    by (rule sift_down_heap[OF swo_on_subset[OF assms(2) sub] order_refl pre])
  with False zs show ?thesis by (simp add: pop_heap_long is_heap_heap_from)
qed

lemma sint_small:
  fixes x :: "32 word"
  assumes "unat x < 2 ^ 31"
  shows "sint x = int (unat x)"
proof -
  have u: "uint x < 2 ^ 31"
    using assms unfolding uint_nat by (metis of_nat_less_iff of_nat_numeral of_nat_power)
  have "- (2 ^ 31) \<le> uint x"
    by (rule order_trans[of _ 0]) simp_all
  then have "signed_take_bit 31 (uint x) = uint x"
    using u by (rule signed_take_bit_int_eq_self)
  moreover have l: "LENGTH(32) - Suc 0 = 31" by simp
  have "sint x = signed_take_bit 31 (uint x)"
    using sint_uint[of x] unfolding l .
  ultimately show ?thesis by (simp only: uint_nat)
qed

lemma sint_diff_window:
  fixes x y :: "32 word"
  assumes "unat x < 2 ^ 31" "unat y < 2 ^ 31"
  shows "sint (x - y) = int (unat x) - int (unat y)"
proof -
  have sx: "sint x = int (unat x)" using assms(1) by (rule sint_small)
  have sy: "sint y = int (unat y)" using assms(2) by (rule sint_small)
  have ux: "int (unat x) < 2 ^ 31"
    using assms(1) by (metis of_nat_less_iff of_nat_numeral of_nat_power)
  have uy: "int (unat y) < 2 ^ 31"
    using assms(2) by (metis of_nat_less_iff of_nat_numeral of_nat_power)
  have l: "LENGTH(32) - 1 = 31" by simp
  have "sint (x - y) = signed_take_bit 31 (sint x - sint y)"
    using sint_word_ariths(2)[of x y] unfolding l .
  also have "\<dots> = sint x - sint y"
  proof (rule signed_take_bit_int_eq_self)
    show "- (2 ^ 31) \<le> sint x - sint y" unfolding sx sy using uy by linarith
    show "sint x - sint y < 2 ^ 31" unfolding sx sy using ux by linarith
  qed
  finally show ?thesis by (simp only: sx sy)
qed

lemma count_diff:
  "seq_no c0 a < 2 ^ 31 \<Longrightarrow> seq_no c0 b < 2 ^ 31 \<Longrightarrow>
   sint (q_count a - q_count b) = int (seq_no c0 a) - int (seq_no c0 b)"
  using sint_diff_window[of "q_count a - c0" "q_count b - c0"] by (simp add: seq_no_def)

lemma greater_elm_window:
  assumes "seq_no c0 a < 2 ^ 31" "seq_no c0 b < 2 ^ 31" "\<not> isnan (q_time a)" "\<not> isnan (q_time b)"
  shows "greater_elm a b \<longleftrightarrow> \<not> dispatch_before c0 a b"
  using assms count_diff[OF assms(1,2)]
  by (auto simp: greater_elm_def dispatch_before_def dgt_def dless_def deq_def)

lemma dispatch_before_trans:
  "dispatch_before c0 a b \<Longrightarrow> dispatch_before c0 b c \<Longrightarrow> dispatch_before c0 a c"
  by (auto simp: dispatch_before_def dless_def deq_def)

lemma dispatch_before_total:
  "\<not> isnan (q_time a) \<Longrightarrow> \<not> isnan (q_time b) \<Longrightarrow> dispatch_before c0 a b \<or> dispatch_before c0 b a"
  by (auto simp: dispatch_before_def dless_def deq_def)

lemma greater_elm_swo:
  assumes "window c0 q" "no_nan q"
  shows "swo_on (set q) greater_elm"
proof -
  have g: "\<And>a b. a \<in> set q \<Longrightarrow> b \<in> set q \<Longrightarrow> greater_elm a b \<longleftrightarrow> \<not> dispatch_before c0 a b"
    using assms by (intro greater_elm_window) (auto simp: window_def no_nan_def)
  have n: "\<And>a. a \<in> set q \<Longrightarrow> \<not> isnan (q_time a)" using assms(2) by (simp add: no_nan_def)
  show ?thesis
    unfolding swo_on_def
  proof (intro conjI ballI impI)
    fix a b assume ab: "a \<in> set q" "b \<in> set q" and "greater_elm a b"
    then have "\<not> dispatch_before c0 a b" using g by simp
    then have "dispatch_before c0 b a" using dispatch_before_total[OF n[OF ab(1)] n[OF ab(2)]] by blast
    moreover have "\<not> (dispatch_before c0 b a \<and> greater_elm b a \<and> \<not> dispatch_before c0 a b \<and> False)" by simp
    ultimately show "\<not> greater_elm b a"
      using g[OF ab(2) ab(1)] \<open>\<not> dispatch_before c0 a b\<close> by simp
  next
    fix a b c assume abc: "a \<in> set q" "b \<in> set q" "c \<in> set q"
      and "\<not> greater_elm a b \<and> \<not> greater_elm b c"
    then have "dispatch_before c0 a b" "dispatch_before c0 b c" using g by simp_all
    then have "dispatch_before c0 a c" by (rule dispatch_before_trans)
    then show "\<not> greater_elm a c" using g[OF abc(1) abc(3)] by simp
  qed
qed

lemma set_pop_heap: "xs \<noteq> [] \<Longrightarrow> set (butlast (pop_heap cmp xs)) \<subseteq> set xs"
  using mset_pop_heap[of xs cmp] by (metis in_diffD mset_eq_setD set_mset_mset subsetI)

lemma window_subset: "window c0 q \<Longrightarrow> set q' \<subseteq> set q \<Longrightarrow> window c0 q'"
  by (auto simp: window_def)

lemma no_nan_subset: "no_nan q \<Longrightarrow> set q' \<subseteq> set q \<Longrightarrow> no_nan q'"
  by (auto simp: no_nan_def)

lemma heap_top_before:
  assumes "is_heap greater_elm q" "window c0 q" "no_nan q" "e \<in> set q"
  shows "dispatch_before c0 (q ! 0) e"
proof -
  from assms(4) obtain j where j: "j < length q" "q ! j = e" by (auto simp: in_set_conv_nth)
  then have z: "q ! 0 \<in> set q" by (cases q) auto
  have "\<not> greater_elm (q ! 0) (q ! j)"
    by (rule heap_top[OF assms(1) greater_elm_swo[OF assms(2,3)] j(1)])
  moreover have "greater_elm (q ! 0) e \<longleftrightarrow> \<not> dispatch_before c0 (q ! 0) e"
    using assms(2,3,4) z by (intro greater_elm_window) (auto simp: window_def no_nan_def)
  ultimately show ?thesis using j(2) by simp
qed

lemma dispatched_subset: "set (dispatched ticks q) \<subseteq> set q"
proof (induction ticks q rule: dispatched.induct)
  case (1 ticks q)
  show ?case
  proof (cases "q \<noteq> [] \<and> dle (q_time (q ! 0)) ticks")
    case False
    then show ?thesis by (subst dispatched.simps) auto
  next
    case True
    then have z: "q ! 0 \<in> set q" by (cases q) auto
    have "set (dispatched ticks (butlast (pop_heap greater_elm q))) \<subseteq> set q"
      using "1.IH"[OF True] set_pop_heap[of q greater_elm] True by blast
    with True z show ?thesis by (subst dispatched.simps) auto
  qed
qed

lemma dispatched_sorted:
  assumes "is_heap greater_elm q" "window c0 q" "no_nan q"
  shows "sorted_wrt (dispatch_before c0) (dispatched ticks q)"
  using assms
proof (induction ticks q rule: dispatched.induct)
  case (1 ticks q)
  show ?case
  proof (cases "q \<noteq> [] \<and> dle (q_time (q ! 0)) ticks")
    case False
    then show ?thesis by (subst dispatched.simps) auto
  next
    case True
    define r where "r = butlast (pop_heap greater_elm q)"
    have sub: "set r \<subseteq> set q" unfolding r_def using True by (intro set_pop_heap) simp
    have hr: "is_heap greater_elm r"
      unfolding r_def by (rule pop_heap_is_heap[OF "1.prems"(1) greater_elm_swo[OF "1.prems"(2,3)]])
    have s: "sorted_wrt (dispatch_before c0) (dispatched ticks r)"
      using "1.IH"[OF True] hr window_subset[OF "1.prems"(2) sub] no_nan_subset[OF "1.prems"(3) sub]
      by (simp add: r_def)
    have "\<forall>e \<in> set (dispatched ticks r). dispatch_before c0 (q ! 0) e"
      using dispatched_subset[of ticks r] sub heap_top_before[OF "1.prems"] by blast
    with s True show ?thesis by (subst dispatched.simps) (simp add: r_def)
  qed
qed

lemma dle_before:
  "dispatch_before c0 a b \<Longrightarrow> \<not> isnan (q_time a) \<Longrightarrow> dle (q_time b) ticks \<Longrightarrow> dle (q_time a) ticks"
  by (auto simp: dispatch_before_def dle_def dless_def deq_def)

lemma dispatched_due:
  assumes "is_heap greater_elm q" "window c0 q" "no_nan q"
  shows "mset (dispatched ticks q) = filter_mset (\<lambda>e. dle (q_time e) ticks) (mset q)"
  using assms
proof (induction ticks q rule: dispatched.induct)
  case (1 ticks q)
  show ?case
  proof (cases "q \<noteq> [] \<and> dle (q_time (q ! 0)) ticks")
    case False
    have "\<forall>e \<in> set q. \<not> dle (q_time e) ticks"
    proof
      fix e assume e: "e \<in> set q"
      then have ne: "q \<noteq> []" by auto
      then have z: "q ! 0 \<in> set q" by (cases q) auto
      have "dispatch_before c0 (q ! 0) e" by (rule heap_top_before[OF "1.prems" e])
      moreover have "\<not> isnan (q_time (q ! 0))" using "1.prems"(3) z by (simp add: no_nan_def)
      ultimately show "\<not> dle (q_time e) ticks" using False ne dle_before by blast
    qed
    then have "filter_mset (\<lambda>e. dle (q_time e) ticks) (mset q) = {#}"
      by simp
    moreover have "dispatched ticks q = []" using False by (subst dispatched.simps) auto
    ultimately show ?thesis by simp
  next
    case True
    define r where "r = butlast (pop_heap greater_elm q)"
    have sub: "set r \<subseteq> set q" unfolding r_def using True by (intro set_pop_heap) simp
    have hr: "is_heap greater_elm r"
      unfolding r_def by (rule pop_heap_is_heap[OF "1.prems"(1) greater_elm_swo[OF "1.prems"(2,3)]])
    have s: "mset (dispatched ticks r) = filter_mset (\<lambda>e. dle (q_time e) ticks) (mset r)"
      using "1.IH"[OF True] hr window_subset[OF "1.prems"(2) sub] no_nan_subset[OF "1.prems"(3) sub]
      by (simp add: r_def)
    have mr: "mset r = mset q - {#q ! 0#}" unfolding r_def using True by (intro mset_pop_heap) simp
    have z: "q ! 0 \<in># mset q" using True by (cases q) auto
    have "mset q = add_mset (q ! 0) (mset r)" unfolding mr using z by simp
    then have "filter_mset (\<lambda>e. dle (q_time e) ticks) (mset q)
             = add_mset (q ! 0) (filter_mset (\<lambda>e. dle (q_time e) ticks) (mset r))"
      using True by simp
    moreover have "dispatched ticks q = q ! 0 # dispatched ticks r"
      using True by (subst dispatched.simps) (simp add: r_def)
    ultimately show ?thesis using s by simp
  qed
qed

lemma midiOutSendMessage_queue_indep:
  "midiOutSendMessage d t m (st\<lparr>moEventQueue := q\<rparr>)
     = map_option (\<lambda>s. s\<lparr>moEventQueue := q\<rparr>) (midiOutSendMessage d t m st)"
  unfolding midiOutSendMessage_def Let_def midi_send_def
  by (simp add: if_distrib[where f = "map_option (\<lambda>s. s\<lparr>moEventQueue := q\<rparr>)"]
           cong: if_cong del: if_split)

lemma dispatch_one_queue_indep:
  "dispatch_one msecs ticks e (st\<lparr>moEventQueue := q\<rparr>)
     = map_option (\<lambda>s. s\<lparr>moEventQueue := q\<rparr>) (dispatch_one msecs ticks e st)"
  unfolding dispatch_one_def Let_def MidiIn_enqueue_def
  by (simp add: midiOutSendMessage_queue_indep
           if_distrib[where f = "map_option (\<lambda>s. s\<lparr>moEventQueue := q\<rparr>)"]
           cong: if_cong del: if_split)

lemma dispatch_all_queue_indep:
  "dispatch_all msecs ticks es (st\<lparr>moEventQueue := q\<rparr>)
     = map_option (\<lambda>s. s\<lparr>moEventQueue := q\<rparr>) (dispatch_all msecs ticks es st)"
proof (induction es arbitrary: st)
  case Nil
  show ?case by simp
next
  case (Cons e es)
  show ?case
  proof (cases "dispatch_one msecs ticks e st")
    case None
    then show ?thesis by (simp add: dispatch_one_queue_indep)
  next
    case (Some st')
    then show ?thesis using Cons.IH[of st'] by (simp add: dispatch_one_queue_indep)
  qed
qed

lemma dispatch_loop_dispatched:
  "dispatch_loop msecs ticks st =
     map_option (\<lambda>s. s\<lparr>moEventQueue := undispatched ticks (moEventQueue st)\<rparr>)
       (dispatch_all msecs ticks (dispatched ticks (moEventQueue st)) st)"
proof (induction msecs ticks st rule: dispatch_loop.induct)
  case (1 msecs ticks st)
  let ?q = "moEventQueue st"
  show ?case
  proof (cases "?q \<noteq> [] \<and> dle (q_time (?q ! 0)) ticks")
    case False
    then have "dispatch_loop msecs ticks st = Some st" by (subst dispatch_loop.simps) auto
    moreover have "dispatched ticks ?q = []" using False by (subst dispatched.simps) auto
    moreover have "undispatched ticks ?q = ?q" using False by (subst undispatched.simps) auto
    ultimately show ?thesis by simp
  next
    case True
    define r where "r = butlast (pop_heap greater_elm ?q)"
    have d: "dispatched ticks ?q = ?q ! 0 # dispatched ticks r"
      using True by (subst dispatched.simps) (simp add: r_def)
    have u: "undispatched ticks ?q = undispatched ticks r"
      using True by (subst undispatched.simps) (simp add: r_def)
    show ?thesis
    proof (cases "dispatch_one msecs ticks (?q ! 0) st")
      case None
      then have "dispatch_loop msecs ticks st = None"
        using True by (subst dispatch_loop.simps) simp
      with None d show ?thesis by simp
    next
      case (Some st')
      have q': "moEventQueue st' = ?q" using Some by (rule dispatch_one_queue)
      have "dispatch_loop msecs ticks st = dispatch_loop msecs ticks (st'\<lparr>moEventQueue := r\<rparr>)"
        using True Some by (subst dispatch_loop.simps) (simp add: q' r_def)
      also have "\<dots> = map_option (\<lambda>s. s\<lparr>moEventQueue := undispatched ticks r\<rparr>)
                  (dispatch_all msecs ticks (dispatched ticks r) (st'\<lparr>moEventQueue := r\<rparr>))"
        using "1.IH"[OF True Some] by (simp add: q' r_def)
      also have "\<dots> = map_option (\<lambda>s. s\<lparr>moEventQueue := undispatched ticks r\<rparr>)
                  (dispatch_all msecs ticks (dispatched ticks r) st')"
        by (simp add: dispatch_all_queue_indep option.map_comp comp_def)
      finally show ?thesis using Some d u by simp
    qed
  qed
qed


lemma mset_sift_up: "i < length xs \<Longrightarrow> mset (sift_up cmp xs i) = mset xs"
proof (induction cmp xs i rule: sift_up.induct)
  case (1 cmp xs i)
  define p where "p = (i - 1) div 2"
  show ?case
  proof (cases "0 < i \<and> cmp (xs ! p) (xs ! i)")
    case False
    then have "sift_up cmp xs i = xs"
      unfolding p_def by (subst sift_up.simps) (simp only: if_False simp_thms)
    then show ?thesis by simp
  next
    case True
    have pl: "p < length xs" "p < i" using True "1.prems" by (auto simp: p_def)
    have "sift_up cmp xs i = sift_up cmp (xs[p := xs ! i, i := xs ! p]) p"
      using True unfolding p_def by (subst sift_up.simps) (simp only: if_True simp_thms)
    moreover have "mset (sift_up cmp (xs[p := xs ! i, i := xs ! p]) p)
                 = mset (xs[p := xs ! i, i := xs ! p])"
      using "1.IH" True pl by (simp add: p_def)
    ultimately show ?thesis using pl "1.prems" by (simp add: mset_swap)
  qed
qed

lemma sift_up_heap:
  assumes "swo_on (set xs) cmp" "i < length xs" "sift_up_pre cmp xs i"
  shows "is_heap cmp (sift_up cmp xs i)"
  using assms
proof (induction cmp xs i rule: sift_up.induct)
  case (1 cmp xs i)
  note swo = "1.prems"(1) and il = "1.prems"(2) and pre = "1.prems"(3)
  define p where "p = (i - 1) div 2"
  from pre have pa: "\<And>j. 0 < j \<Longrightarrow> j < length xs \<Longrightarrow> j \<noteq> i \<Longrightarrow> \<not> cmp (xs ! ((j - 1) div 2)) (xs ! j)"
    unfolding sift_up_pre_def by blast
  from pre have pb: "\<And>c. 0 < i \<Longrightarrow> c < length xs \<Longrightarrow> 0 < c \<Longrightarrow> (c - 1) div 2 = i
        \<Longrightarrow> \<not> cmp (xs ! p) (xs ! c)"
    unfolding sift_up_pre_def p_def by blast
  from swo have asym: "\<And>a b. a \<in> set xs \<Longrightarrow> b \<in> set xs \<Longrightarrow> cmp a b \<Longrightarrow> \<not> cmp b a"
    and ntr: "\<And>a b c. a \<in> set xs \<Longrightarrow> b \<in> set xs \<Longrightarrow> c \<in> set xs \<Longrightarrow> \<not> cmp a b \<Longrightarrow> \<not> cmp b c \<Longrightarrow> \<not> cmp a c"
    unfolding swo_on_def by blast+
  have mem: "\<And>k. k < length xs \<Longrightarrow> xs ! k \<in> set xs" by simp
  show ?case
  proof (cases "0 < i \<and> cmp (xs ! p) (xs ! i)")
    case False
    have "sift_up cmp xs i = xs"
      using False unfolding p_def by (subst sift_up.simps) (simp only: if_False simp_thms)
    moreover have "is_heap cmp xs"
      unfolding is_heap_def
    proof (intro allI impI)
      fix j assume j: "0 < j \<and> j < length xs"
      show "\<not> cmp (xs ! ((j - 1) div 2)) (xs ! j)"
      proof (cases "j = i")
        case True
        with j False show ?thesis by (simp add: p_def)
      next
        case False
        with j show ?thesis using pa by simp
      qed
    qed
    ultimately show ?thesis by simp
  next
    case True
    then have i0: "0 < i" and sw: "cmp (xs ! p) (xs ! i)" by simp_all
    have pl: "p < length xs" "p < i" "p \<noteq> i" using i0 il by (auto simp: p_def)
    define ys where "ys = xs[p := xs ! i, i := xs ! p]"
    have eq: "sift_up cmp xs i = sift_up cmp ys p"
      using True unfolding p_def ys_def by (subst sift_up.simps) (simp only: if_True simp_thms)
    have sset: "set ys = set xs" unfolding ys_def using il pl by (simp add: set_swap)
    have len: "length ys = length xs" by (simp add: ys_def)
    have yp: "ys ! p = xs ! i" using pl il by (simp add: ys_def)
    have yi: "ys ! i = xs ! p" using pl il by (simp add: ys_def)
    have yo: "\<And>k. k \<noteq> i \<Longrightarrow> k \<noteq> p \<Longrightarrow> ys ! k = xs ! k" by (simp add: ys_def)
    have nip: "\<not> cmp (xs ! i) (xs ! p)"
      using asym[OF mem[OF pl(1)] mem[OF il] sw] .
    have pre': "sift_up_pre cmp ys p"
      unfolding sift_up_pre_def
    proof (intro conjI allI impI)
      fix j assume j: "0 < j \<and> j < length ys \<and> j \<noteq> p"
      then have jl: "0 < j" "j < length xs" "j \<noteq> p" by (simp_all add: len)
      define pj where "pj = (j - 1) div 2"
      have pjl: "pj < j" "pj < length xs" using jl by (auto simp: pj_def)
      have "\<not> cmp (ys ! pj) (ys ! j)"
      proof (cases "j = i")
        case True
        then have "pj = p" by (simp add: p_def pj_def)
        then show ?thesis using yp yi nip True by simp
      next
        case ji: False
        have yj: "ys ! j = xs ! j" using yo ji jl by simp
        have npj: "\<not> cmp (xs ! pj) (xs ! j)" using pa[OF jl(1,2) ji] by (simp add: pj_def)
        show ?thesis
        proof (cases "pj = p")
          case True
          have "cmp (xs ! j) (xs ! i)"
            using ntr[OF mem[OF pl(1)] mem[OF jl(2)] mem[OF il]] npj sw True by blast
          then have "\<not> cmp (xs ! i) (xs ! j)"
            using asym[OF mem[OF jl(2)] mem[OF il]] by blast
          then show ?thesis using True yp yj by simp
        next
          case pp: False
          show ?thesis
          proof (cases "pj = i")
            case True
            have "\<not> cmp (xs ! p) (xs ! j)"
              using pb[OF i0 jl(2,1)] True by (simp add: pj_def)
            then show ?thesis using True yi yj by simp
          next
            case False
            then have "ys ! pj = xs ! pj" using yo pp by simp
            then show ?thesis using npj yj by simp
          qed
        qed
      qed
      then show "\<not> cmp (ys ! ((j - 1) div 2)) (ys ! j)" unfolding pj_def .
    next
      fix c assume p0: "0 < p" and c: "c < length ys \<and> 0 < c \<and> (c - 1) div 2 = p"
      define g where "g = (p - 1) div 2"
      have gl: "g < p" "g < length xs" using p0 pl by (auto simp: g_def)
      then have yg: "ys ! g = xs ! g" using yo pl by simp
      have cl: "c < length xs" "0 < c" "c \<noteq> p" using c by (auto simp: len)
      have ngp: "\<not> cmp (xs ! g) (xs ! p)" using pa[OF p0 pl(1) pl(3)] by (simp add: g_def)
      have "\<not> cmp (ys ! g) (ys ! c)"
      proof (cases "c = i")
        case True
        then show ?thesis using yg yi ngp by simp
      next
        case False
        then have yc: "ys ! c = xs ! c" using yo cl by simp
        have "\<not> cmp (xs ! p) (xs ! c)" using pa[OF cl(2,1) False] c by simp
        then have "\<not> cmp (xs ! g) (xs ! c)"
          using ntr[OF mem[OF gl(2)] mem[OF pl(1)] mem[OF cl(1)] ngp] by blast
        then show ?thesis using yg yc by simp
      qed
      then show "\<not> cmp (ys ! ((p - 1) div 2)) (ys ! c)" unfolding g_def .
    qed
    have a1: "swo_on (set ys) cmp" using swo sset by simp
    have a2: "p < length ys" using pl len by simp
    have "is_heap cmp (sift_up cmp ys p)"
      unfolding ys_def p_def
      by (rule "1.IH"[OF True[unfolded p_def] a1[unfolded ys_def p_def] a2[unfolded ys_def p_def]
                         pre'[unfolded ys_def p_def]])
    then show ?thesis using eq by simp
  qed
qed

lemma mset_push_heap: "mset (push_heap cmp xs) = mset xs"
  by (simp add: push_heap_def mset_sift_up)

lemma push_heap_is_heap:
  assumes "is_heap cmp xs" "swo_on (set (xs @ [x])) cmp"
  shows "is_heap cmp (push_heap cmp (xs @ [x]))"
proof -
  have pre: "sift_up_pre cmp (xs @ [x]) (length xs)"
    unfolding sift_up_pre_def
  proof (intro conjI allI impI)
    fix j assume j: "0 < j \<and> j < length (xs @ [x]) \<and> j \<noteq> length xs"
    then have jl: "0 < j" "j < length xs" by simp_all
    then have "(j - 1) div 2 < length xs" by auto
    then show "\<not> cmp ((xs @ [x]) ! ((j - 1) div 2)) ((xs @ [x]) ! j)"
      using assms(1) jl by (simp add: is_heap_def nth_append)
  next
    fix c assume "0 < length xs" and c: "c < length (xs @ [x]) \<and> 0 < c \<and> (c - 1) div 2 = length xs"
    then have "c = 2 * length xs + 1 \<or> c = 2 * length xs + 2" using parent_child[of c "length xs"] by simp
    with c have False by auto
    then show "\<not> cmp ((xs @ [x]) ! ((length xs - 1) div 2)) ((xs @ [x]) ! c)" ..
  qed
  have "is_heap cmp (sift_up cmp (xs @ [x]) (length xs))"
    by (rule sift_up_heap[OF assms(2) _ pre]) simp
  then show ?thesis by (simp add: push_heap_def)
qed

lemma enqueue_queue:
  "mset (moEventQueue (enqueue e st)) = mset (moEventQueue st) + {#e#}"
  by (simp add: enqueue_def mset_push_heap)

lemma enqueue_heap:
  assumes "is_heap greater_elm (moEventQueue st)"
      and "window c0 (moEventQueue st @ [e])" "no_nan (moEventQueue st @ [e])"
  shows "is_heap greater_elm (moEventQueue (enqueue e st))"
  using push_heap_is_heap[OF assms(1) greater_elm_swo[OF assms(2,3)]]
  by (simp add: enqueue_def)

lemma enqueue_all:
  assumes "is_heap greater_elm (moEventQueue st)"
      and "window c0 (moEventQueue st @ es)" "no_nan (moEventQueue st @ es)"
  shows "is_heap greater_elm (moEventQueue (fold enqueue es st))
       \<and> mset (moEventQueue (fold enqueue es st)) = mset (moEventQueue st) + mset es"
  using assms
proof (induction es arbitrary: st)
  case Nil
  then show ?case by simp
next
  case (Cons e es)
  have s1: "set (moEventQueue st @ [e]) \<subseteq> set (moEventQueue st @ e # es)" by auto
  have h: "is_heap greater_elm (moEventQueue (enqueue e st))"
    using enqueue_heap[OF Cons.prems(1) window_subset[OF Cons.prems(2) s1]
                          no_nan_subset[OF Cons.prems(3) s1]] .
  have s2: "set (moEventQueue (enqueue e st) @ es) \<subseteq> set (moEventQueue st @ e # es)"
    using enqueue_queue[of e st] by (metis add_mset_add_single mset.simps(2) mset_append set_mset_mset subset_refl union_mset_add_mset_right append_Cons append_Nil mset_eq_setD)
  show ?case
    using Cons.IH[OF h window_subset[OF Cons.prems(2) s2] no_nan_subset[OF Cons.prems(3) s2]]
    by (simp add: enqueue_queue)
qed


lemma dispatched_undispatched:
  "mset (dispatched ticks q) + mset (undispatched ticks q) = mset q"
proof (induction ticks q rule: dispatched.induct)
  case (1 ticks q)
  show ?case
  proof (cases "q \<noteq> [] \<and> dle (q_time (q ! 0)) ticks")
    case False
    have "dispatched ticks q = []" using False by (subst dispatched.simps) auto
    moreover have "undispatched ticks q = q" using False by (subst undispatched.simps) auto
    ultimately show ?thesis by simp
  next
    case True
    define r where "r = butlast (pop_heap greater_elm q)"
    have d: "dispatched ticks q = q ! 0 # dispatched ticks r"
      using True by (subst dispatched.simps) (simp add: r_def)
    have u: "undispatched ticks q = undispatched ticks r"
      using True by (subst undispatched.simps) (simp add: r_def)
    have m: "mset r = mset q - {#q ! 0#}" unfolding r_def using True by (intro mset_pop_heap) simp
    have z: "q ! 0 \<in># mset q" using True by (cases q) auto
    have "mset (dispatched ticks r) + mset (undispatched ticks r) = mset r"
      using "1.IH"[OF True] by (simp add: r_def)
    then show ?thesis using z by (simp add: d u m)
  qed
qed

lemma undispatched_heap:
  assumes "is_heap greater_elm q" "window c0 q" "no_nan q"
  shows "is_heap greater_elm (undispatched ticks q)"
  using assms
proof (induction ticks q rule: undispatched.induct)
  case (1 ticks q)
  show ?case
  proof (cases "q \<noteq> [] \<and> dle (q_time (q ! 0)) ticks")
    case False
    have "undispatched ticks q = q" using False by (subst undispatched.simps) auto
    then show ?thesis using "1.prems"(1) by simp
  next
    case True
    define r where "r = butlast (pop_heap greater_elm q)"
    have sub: "set r \<subseteq> set q" unfolding r_def using True by (intro set_pop_heap) simp
    have hr: "is_heap greater_elm r"
      unfolding r_def by (rule pop_heap_is_heap[OF "1.prems"(1) greater_elm_swo[OF "1.prems"(2,3)]])
    have u: "undispatched ticks q = undispatched ticks r"
      using True by (subst undispatched.simps) (simp add: r_def)
    have "is_heap greater_elm (undispatched ticks r)"
      using "1.IH"[OF True] hr window_subset[OF "1.prems"(2) sub] no_nan_subset[OF "1.prems"(3) sub]
      by (simp add: r_def)
    then show ?thesis by (simp add: u)
  qed
qed

lemma greater_elm_order:
  assumes "seq_no c0 a < 2 ^ 31" "seq_no c0 b < 2 ^ 31"
  shows "greater_elm a b \<longleftrightarrow>
           dgt (q_time a) (q_time b) \<or> (deq (q_time a) (q_time b) \<and> seq_no c0 b < seq_no c0 a)"
proof (cases "deq (q_time a) (q_time b)")
  case True
  then have "\<not> dgt (q_time a) (q_time b)"
    by (auto simp: deq_def dgt_def dless_def split: double.splits)
  with True show ?thesis
    using count_diff[OF assms] by (simp add: greater_elm_def)
next
  case False
  then show ?thesis by (simp add: greater_elm_def)
qed

lemma greater_elm_fin:
  "greater_elm \<lparr>q_devNum = d1, q_time = Fin x, q_count = c1, q_msg = m1, q_tk = t1\<rparr>
               \<lparr>q_devNum = d2, q_time = Fin y, q_count = c2, q_msg = m2, q_tk = t2\<rparr>
     \<longleftrightarrow> (if x = y then 0 < sint (c1 - c2) else y < x)"
  by (simp add: greater_elm_def deq_def dgt_def dless_def isnan_def)

lemma greater_elm_nan:
  "\<not> greater_elm \<lparr>q_devNum = d1, q_time = NaN, q_count = c1, q_msg = m1, q_tk = t1\<rparr> e"
  "\<not> greater_elm e \<lparr>q_devNum = d1, q_time = NaN, q_count = c1, q_msg = m1, q_tk = t1\<rparr>"
  by (simp_all add: greater_elm_def deq_def dgt_def dless_def isnan_def)

text \<open>
  Claim C7. The counter of an element is the value of \<open>currentCount\<close> when it was
  constructed, so \<open>seq_no c0 e\<close> is the number of constructions between the one that drew
  \<open>c0\<close> and the one of \<open>e\<close>, also when the counter has wrapped in between. Let the queue
  be a heap, let the elements \<open>es\<close> be enqueued one after the other, and let the
  counters of all these elements lie within half the counter range from some counter
  \<open>c0\<close> and no tick time be NaN. Then on these elements \<open>greater\<close> is the order by
  tick time, with ties decided by \<open>seq_no\<close>; the queue holds the old and the new
  elements and is a heap; the dispatch loop with limit \<open>ticks\<close> processes the elements
  \<open>dispatched ticks\<close> of the queue in their order and leaves \<open>undispatched ticks\<close>;
  of two elements that it processes the earlier one has the smaller tick time, or the same
  tick time and a \<open>seq_no\<close> that is not larger: tick times are nondecreasing and elements
  of the same tick are taken in the order of their construction; the elements processed are
  exactly those with a tick time not above \<open>ticks\<close>, and the others stay in a heap.
\<close>

theorem dispatch_order:
  assumes "is_heap greater_elm (moEventQueue st)"
      and "window c0 (moEventQueue st @ es)"
      and "no_nan (moEventQueue st @ es)"
  shows "(\<forall>a \<in> set (moEventQueue st @ es). \<forall>b \<in> set (moEventQueue st @ es).
            greater_elm a b \<longleftrightarrow>
              dgt (q_time a) (q_time b)
              \<or> (deq (q_time a) (q_time b) \<and> seq_no c0 b < seq_no c0 a))
       \<and> mset (moEventQueue (fold enqueue es st)) = mset (moEventQueue st) + mset es
       \<and> is_heap greater_elm (moEventQueue (fold enqueue es st))
       \<and> dispatch_loop msecs ticks (fold enqueue es st)
           = map_option
               (\<lambda>s. s\<lparr>moEventQueue := undispatched ticks (moEventQueue (fold enqueue es st))\<rparr>)
               (dispatch_all msecs ticks
                  (dispatched ticks (moEventQueue (fold enqueue es st))) (fold enqueue es st))
       \<and> sorted_wrt (dispatch_before c0) (dispatched ticks (moEventQueue (fold enqueue es st)))
       \<and> mset (dispatched ticks (moEventQueue (fold enqueue es st)))
           = filter_mset (\<lambda>e. dle (q_time e) ticks) (mset (moEventQueue st) + mset es)
       \<and> mset (undispatched ticks (moEventQueue (fold enqueue es st)))
           = filter_mset (\<lambda>e. \<not> dle (q_time e) ticks) (mset (moEventQueue st) + mset es)
       \<and> is_heap greater_elm (undispatched ticks (moEventQueue (fold enqueue es st)))"
proof -
  define Q where "Q = moEventQueue (fold enqueue es st)"
  have hQ: "is_heap greater_elm Q" and mQ: "mset Q = mset (moEventQueue st) + mset es"
    using enqueue_all[OF assms] by (simp_all add: Q_def)
  have sQ: "set Q = set (moEventQueue st @ es)"
    using mQ by (metis mset_append set_mset_mset)
  have wQ: "window c0 Q" using window_subset[OF assms(2)] sQ by simp
  have nQ: "no_nan Q" using no_nan_subset[OF assms(3)] sQ by simp
  have c1: "\<forall>a \<in> set (moEventQueue st @ es). \<forall>b \<in> set (moEventQueue st @ es).
            greater_elm a b \<longleftrightarrow>
              dgt (q_time a) (q_time b)
              \<or> (deq (q_time a) (q_time b) \<and> seq_no c0 b < seq_no c0 a)"
  proof (intro ballI)
    fix a b assume "a \<in> set (moEventQueue st @ es)" "b \<in> set (moEventQueue st @ es)"
    then have "seq_no c0 a < 2 ^ 31" "seq_no c0 b < 2 ^ 31"
      using assms(2) unfolding window_def by blast+
    then show "greater_elm a b \<longleftrightarrow>
              dgt (q_time a) (q_time b)
              \<or> (deq (q_time a) (q_time b) \<and> seq_no c0 b < seq_no c0 a)"
      by (rule greater_elm_order)
  qed
  have c4: "dispatch_loop msecs ticks (fold enqueue es st)
           = map_option (\<lambda>s. s\<lparr>moEventQueue := undispatched ticks Q\<rparr>)
               (dispatch_all msecs ticks (dispatched ticks Q) (fold enqueue es st))"
    unfolding Q_def by (rule dispatch_loop_dispatched)
  have c5: "sorted_wrt (dispatch_before c0) (dispatched ticks Q)"
    by (rule dispatched_sorted[OF hQ wQ nQ])
  have c6: "mset (dispatched ticks Q)
           = filter_mset (\<lambda>e. dle (q_time e) ticks) (mset (moEventQueue st) + mset es)"
    using dispatched_due[OF hQ wQ nQ, of ticks] by (simp only: mQ)
  have "mset (undispatched ticks Q) = mset Q - mset (dispatched ticks Q)"
    using dispatched_undispatched[of ticks Q] by (metis add_diff_cancel_left')
  also have "\<dots> = filter_mset (\<lambda>e. \<not> dle (q_time e) ticks) (mset Q)"
    unfolding dispatched_due[OF hQ wQ nQ, of ticks]
    by (metis add_diff_cancel_left' multiset_partition)
  finally have c7: "mset (undispatched ticks Q)
           = filter_mset (\<lambda>e. \<not> dle (q_time e) ticks) (mset (moEventQueue st) + mset es)"
    by (simp only: mQ)
  have c8: "is_heap greater_elm (undispatched ticks Q)"
    by (rule undispatched_heap[OF hQ wQ nQ])
  show ?thesis
    using c1 mQ hQ c4 c5 c6 c7 c8 unfolding Q_def by (intro conjI)
qed

theorem dispatch_order_witness:
  "is_heap greater_elm (moEventQueue (startup\<lparr>currentCount := 3\<rparr>))
   \<and> window 0xFFFFFFFF (moEventQueue (startup\<lparr>currentCount := 3\<rparr>) @
     [\<lparr>q_devNum = - 2, q_time = Fin 5, q_count = 0xFFFFFFFF, q_msg = [0x90, 60, 100], q_tk = 0\<rparr>,
      \<lparr>q_devNum = - 2, q_time = Fin 5, q_count = 0, q_msg = [0x90, 61, 100], q_tk = 0\<rparr>,
      \<lparr>q_devNum = - 2, q_time = Fin 5, q_count = 1, q_msg = [0x90, 62, 100], q_tk = 0\<rparr>,
      \<lparr>q_devNum = - 2, q_time = Fin 3, q_count = 2, q_msg = [0x90, 64, 100], q_tk = 0\<rparr>])
   \<and> no_nan (moEventQueue (startup\<lparr>currentCount := 3\<rparr>) @
     [\<lparr>q_devNum = - 2, q_time = Fin 5, q_count = 0xFFFFFFFF, q_msg = [0x90, 60, 100], q_tk = 0\<rparr>,
      \<lparr>q_devNum = - 2, q_time = Fin 5, q_count = 0, q_msg = [0x90, 61, 100], q_tk = 0\<rparr>,
      \<lparr>q_devNum = - 2, q_time = Fin 5, q_count = 1, q_msg = [0x90, 62, 100], q_tk = 0\<rparr>,
      \<lparr>q_devNum = - 2, q_time = Fin 3, q_count = 2, q_msg = [0x90, 64, 100], q_tk = 0\<rparr>])
   \<and> (snd (queueMessage DEV_LOOPBACK (Fin 3) 0 [0x90, 64, 100]
      (snd (queueMessage DEV_LOOPBACK (Fin 5) 0 [0x90, 62, 100]
      (snd (queueMessage DEV_LOOPBACK (Fin 5) 0 [0x90, 61, 100]
      (snd (queueMessage DEV_LOOPBACK (Fin 5) 0 [0x90, 60, 100]
      (startup\<lparr>currentCount := 0xFFFFFFFF\<rparr>))))))))) =
     fold enqueue
     [\<lparr>q_devNum = - 2, q_time = Fin 5, q_count = 0xFFFFFFFF, q_msg = [0x90, 60, 100], q_tk = 0\<rparr>,
      \<lparr>q_devNum = - 2, q_time = Fin 5, q_count = 0, q_msg = [0x90, 61, 100], q_tk = 0\<rparr>,
      \<lparr>q_devNum = - 2, q_time = Fin 5, q_count = 1, q_msg = [0x90, 62, 100], q_tk = 0\<rparr>,
      \<lparr>q_devNum = - 2, q_time = Fin 3, q_count = 2, q_msg = [0x90, 64, 100], q_tk = 0\<rparr>]
     (startup\<lparr>currentCount := 3\<rparr>)
   \<and> dispatched (Fin 5)
     (moEventQueue (fold enqueue
     [\<lparr>q_devNum = - 2, q_time = Fin 5, q_count = 0xFFFFFFFF, q_msg = [0x90, 60, 100], q_tk = 0\<rparr>,
      \<lparr>q_devNum = - 2, q_time = Fin 5, q_count = 0, q_msg = [0x90, 61, 100], q_tk = 0\<rparr>,
      \<lparr>q_devNum = - 2, q_time = Fin 5, q_count = 1, q_msg = [0x90, 62, 100], q_tk = 0\<rparr>,
      \<lparr>q_devNum = - 2, q_time = Fin 3, q_count = 2, q_msg = [0x90, 64, 100], q_tk = 0\<rparr>]
     (startup\<lparr>currentCount := 3\<rparr>))) =
     [\<lparr>q_devNum = - 2, q_time = Fin 3, q_count = 2, q_msg = [0x90, 64, 100], q_tk = 0\<rparr>,
      \<lparr>q_devNum = - 2, q_time = Fin 5, q_count = 0xFFFFFFFF, q_msg = [0x90, 60, 100], q_tk = 0\<rparr>,
      \<lparr>q_devNum = - 2, q_time = Fin 5, q_count = 0, q_msg = [0x90, 61, 100], q_tk = 0\<rparr>,
      \<lparr>q_devNum = - 2, q_time = Fin 5, q_count = 1, q_msg = [0x90, 62, 100], q_tk = 0\<rparr>]
   \<and> sorted_wrt (dispatch_before 0xFFFFFFFF) (dispatched (Fin 5)
     (moEventQueue (fold enqueue
     [\<lparr>q_devNum = - 2, q_time = Fin 5, q_count = 0xFFFFFFFF, q_msg = [0x90, 60, 100], q_tk = 0\<rparr>,
      \<lparr>q_devNum = - 2, q_time = Fin 5, q_count = 0, q_msg = [0x90, 61, 100], q_tk = 0\<rparr>,
      \<lparr>q_devNum = - 2, q_time = Fin 5, q_count = 1, q_msg = [0x90, 62, 100], q_tk = 0\<rparr>,
      \<lparr>q_devNum = - 2, q_time = Fin 3, q_count = 2, q_msg = [0x90, 64, 100], q_tk = 0\<rparr>]
     (startup\<lparr>currentCount := 3\<rparr>))))"
proof -
  have h1: "is_heap greater_elm (moEventQueue (startup\<lparr>currentCount := 3\<rparr>))"
    by (simp add: startup_def is_heap_def)
  have h2: "window 0xFFFFFFFF (moEventQueue (startup\<lparr>currentCount := 3\<rparr>) @
     [\<lparr>q_devNum = - 2, q_time = Fin 5, q_count = 0xFFFFFFFF, q_msg = [0x90, 60, 100], q_tk = 0\<rparr>,
      \<lparr>q_devNum = - 2, q_time = Fin 5, q_count = 0, q_msg = [0x90, 61, 100], q_tk = 0\<rparr>,
      \<lparr>q_devNum = - 2, q_time = Fin 5, q_count = 1, q_msg = [0x90, 62, 100], q_tk = 0\<rparr>,
      \<lparr>q_devNum = - 2, q_time = Fin 3, q_count = 2, q_msg = [0x90, 64, 100], q_tk = 0\<rparr>])"
    by (simp add: startup_def window_def seq_no_def)
  have h3: "no_nan (moEventQueue (startup\<lparr>currentCount := 3\<rparr>) @
     [\<lparr>q_devNum = - 2, q_time = Fin 5, q_count = 0xFFFFFFFF, q_msg = [0x90, 60, 100], q_tk = 0\<rparr>,
      \<lparr>q_devNum = - 2, q_time = Fin 5, q_count = 0, q_msg = [0x90, 61, 100], q_tk = 0\<rparr>,
      \<lparr>q_devNum = - 2, q_time = Fin 5, q_count = 1, q_msg = [0x90, 62, 100], q_tk = 0\<rparr>,
      \<lparr>q_devNum = - 2, q_time = Fin 3, q_count = 2, q_msg = [0x90, 64, 100], q_tk = 0\<rparr>])"
    by (simp add: startup_def no_nan_def isnan_def)
  have f: "fold enqueue
     [\<lparr>q_devNum = - 2, q_time = Fin 5, q_count = 0xFFFFFFFF, q_msg = [0x90, 60, 100], q_tk = 0\<rparr>,
      \<lparr>q_devNum = - 2, q_time = Fin 5, q_count = 0, q_msg = [0x90, 61, 100], q_tk = 0\<rparr>,
      \<lparr>q_devNum = - 2, q_time = Fin 5, q_count = 1, q_msg = [0x90, 62, 100], q_tk = 0\<rparr>,
      \<lparr>q_devNum = - 2, q_time = Fin 3, q_count = 2, q_msg = [0x90, 64, 100], q_tk = 0\<rparr>]
     (startup\<lparr>currentCount := 3\<rparr>) =
     startup\<lparr>currentCount := 3, moEventQueue := [\<lparr>q_devNum = - 2, q_time = Fin 3, q_count = 2, q_msg = [0x90, 64, 100], q_tk = 0\<rparr>,
      \<lparr>q_devNum = - 2, q_time = Fin 5, q_count = 0xFFFFFFFF, q_msg = [0x90, 60, 100], q_tk = 0\<rparr>,
      \<lparr>q_devNum = - 2, q_time = Fin 5, q_count = 1, q_msg = [0x90, 62, 100], q_tk = 0\<rparr>,
      \<lparr>q_devNum = - 2, q_time = Fin 5, q_count = 0, q_msg = [0x90, 61, 100], q_tk = 0\<rparr>]\<rparr>"
    by (simp add: startup_def enqueue_def push_heap_def sift_up.simps greater_elm_fin)
  have q: "(snd (queueMessage DEV_LOOPBACK (Fin 3) 0 [0x90, 64, 100]
      (snd (queueMessage DEV_LOOPBACK (Fin 5) 0 [0x90, 62, 100]
      (snd (queueMessage DEV_LOOPBACK (Fin 5) 0 [0x90, 61, 100]
      (snd (queueMessage DEV_LOOPBACK (Fin 5) 0 [0x90, 60, 100]
      (startup\<lparr>currentCount := 0xFFFFFFFF\<rparr>))))))))) =
     startup\<lparr>currentCount := 3, moEventQueue := [\<lparr>q_devNum = - 2, q_time = Fin 3, q_count = 2, q_msg = [0x90, 64, 100], q_tk = 0\<rparr>,
      \<lparr>q_devNum = - 2, q_time = Fin 5, q_count = 0xFFFFFFFF, q_msg = [0x90, 60, 100], q_tk = 0\<rparr>,
      \<lparr>q_devNum = - 2, q_time = Fin 5, q_count = 1, q_msg = [0x90, 62, 100], q_tk = 0\<rparr>,
      \<lparr>q_devNum = - 2, q_time = Fin 5, q_count = 0, q_msg = [0x90, 61, 100], q_tk = 0\<rparr>]\<rparr>"
    by (simp add: queueMessage_def DEV_LOOPBACK_def startup_def enqueue_def push_heap_def Let_def
          sift_up.simps greater_elm_fin)
  have d: "dispatched (Fin 5)
     [\<lparr>q_devNum = - 2, q_time = Fin 3, q_count = 2, q_msg = [0x90, 64, 100], q_tk = 0\<rparr>,
      \<lparr>q_devNum = - 2, q_time = Fin 5, q_count = 0xFFFFFFFF, q_msg = [0x90, 60, 100], q_tk = 0\<rparr>,
      \<lparr>q_devNum = - 2, q_time = Fin 5, q_count = 1, q_msg = [0x90, 62, 100], q_tk = 0\<rparr>,
      \<lparr>q_devNum = - 2, q_time = Fin 5, q_count = 0, q_msg = [0x90, 61, 100], q_tk = 0\<rparr>] =
     [\<lparr>q_devNum = - 2, q_time = Fin 3, q_count = 2, q_msg = [0x90, 64, 100], q_tk = 0\<rparr>,
      \<lparr>q_devNum = - 2, q_time = Fin 5, q_count = 0xFFFFFFFF, q_msg = [0x90, 60, 100], q_tk = 0\<rparr>,
      \<lparr>q_devNum = - 2, q_time = Fin 5, q_count = 0, q_msg = [0x90, 61, 100], q_tk = 0\<rparr>,
      \<lparr>q_devNum = - 2, q_time = Fin 5, q_count = 1, q_msg = [0x90, 62, 100], q_tk = 0\<rparr>]"
    by (simp add: dispatched.simps pop_heap_def sift_down.simps greater_elm_fin
          dle_def isnan_def Let_def)
  have s: "sorted_wrt (dispatch_before 0xFFFFFFFF) (dispatched (Fin 5)
     (moEventQueue (fold enqueue
     [\<lparr>q_devNum = - 2, q_time = Fin 5, q_count = 0xFFFFFFFF, q_msg = [0x90, 60, 100], q_tk = 0\<rparr>,
      \<lparr>q_devNum = - 2, q_time = Fin 5, q_count = 0, q_msg = [0x90, 61, 100], q_tk = 0\<rparr>,
      \<lparr>q_devNum = - 2, q_time = Fin 5, q_count = 1, q_msg = [0x90, 62, 100], q_tk = 0\<rparr>,
      \<lparr>q_devNum = - 2, q_time = Fin 3, q_count = 2, q_msg = [0x90, 64, 100], q_tk = 0\<rparr>]
     (startup\<lparr>currentCount := 3\<rparr>))))"
    using dispatch_order[OF h1 h2 h3, where ticks = "Fin 5" and msecs = "Fin 5"] by (elim conjE)
  have d': "dispatched (Fin 5)
     (moEventQueue (fold enqueue
     [\<lparr>q_devNum = - 2, q_time = Fin 5, q_count = 0xFFFFFFFF, q_msg = [0x90, 60, 100], q_tk = 0\<rparr>,
      \<lparr>q_devNum = - 2, q_time = Fin 5, q_count = 0, q_msg = [0x90, 61, 100], q_tk = 0\<rparr>,
      \<lparr>q_devNum = - 2, q_time = Fin 5, q_count = 1, q_msg = [0x90, 62, 100], q_tk = 0\<rparr>,
      \<lparr>q_devNum = - 2, q_time = Fin 3, q_count = 2, q_msg = [0x90, 64, 100], q_tk = 0\<rparr>]
     (startup\<lparr>currentCount := 3\<rparr>))) =
     [\<lparr>q_devNum = - 2, q_time = Fin 3, q_count = 2, q_msg = [0x90, 64, 100], q_tk = 0\<rparr>,
      \<lparr>q_devNum = - 2, q_time = Fin 5, q_count = 0xFFFFFFFF, q_msg = [0x90, 60, 100], q_tk = 0\<rparr>,
      \<lparr>q_devNum = - 2, q_time = Fin 5, q_count = 0, q_msg = [0x90, 61, 100], q_tk = 0\<rparr>,
      \<lparr>q_devNum = - 2, q_time = Fin 5, q_count = 1, q_msg = [0x90, 62, 100], q_tk = 0\<rparr>]"
    unfolding f using d by simp
  show ?thesis
    using h1 h2 h3 s d' unfolding q f by (intro conjI) simp_all
qed

text \<open>
  With a NaN tick time the tick times of the elements dispatched can decrease.
  Four messages are queued for the loopback device with the tick times 5, NaN, 7 and 1.
  No comparison with NaN holds, so \<open>push_heap\<close> leaves each element where it was
  appended, and the element of tick 1 stays below the NaN element. The dispatch loop with
  limit 5 hands the element of tick 5 and then the element of tick 1 to the input queue.
\<close>

theorem dispatch_order_counterexample:
  "moEventQueue
     (snd (queueMessage DEV_LOOPBACK (Fin 1) 0 [0x90, 64, 100]
      (snd (queueMessage DEV_LOOPBACK (Fin 7) 0 [0x90, 62, 100]
      (snd (queueMessage DEV_LOOPBACK (NaN) 0 [0x90, 61, 100]
      (snd (queueMessage DEV_LOOPBACK (Fin 5) 0 [0x90, 60, 100]
      startup)))))))) =
     [\<lparr>q_devNum = - 2, q_time = Fin 5, q_count = 0, q_msg = [0x90, 60, 100], q_tk = 0\<rparr>,
      \<lparr>q_devNum = - 2, q_time = NaN, q_count = 1, q_msg = [0x90, 61, 100], q_tk = 0\<rparr>,
      \<lparr>q_devNum = - 2, q_time = Fin 7, q_count = 2, q_msg = [0x90, 62, 100], q_tk = 0\<rparr>,
      \<lparr>q_devNum = - 2, q_time = Fin 1, q_count = 3, q_msg = [0x90, 64, 100], q_tk = 0\<rparr>]
   \<and> window 0
     [\<lparr>q_devNum = - 2, q_time = Fin 5, q_count = 0, q_msg = [0x90, 60, 100], q_tk = 0\<rparr>,
      \<lparr>q_devNum = - 2, q_time = NaN, q_count = 1, q_msg = [0x90, 61, 100], q_tk = 0\<rparr>,
      \<lparr>q_devNum = - 2, q_time = Fin 7, q_count = 2, q_msg = [0x90, 62, 100], q_tk = 0\<rparr>,
      \<lparr>q_devNum = - 2, q_time = Fin 1, q_count = 3, q_msg = [0x90, 64, 100], q_tk = 0\<rparr>]
   \<and> map_option miEventQueue (dispatch_loop (Fin 5) (Fin 5)
     (snd (queueMessage DEV_LOOPBACK (Fin 1) 0 [0x90, 64, 100]
      (snd (queueMessage DEV_LOOPBACK (Fin 7) 0 [0x90, 62, 100]
      (snd (queueMessage DEV_LOOPBACK (NaN) 0 [0x90, 61, 100]
      (snd (queueMessage DEV_LOOPBACK (Fin 5) 0 [0x90, 60, 100]
      startup))))))))) =
     Some [\<lparr>i_devNum = - 2, i_time = Fin 5, i_msg = [0x90, 60, 100], i_tk = 0\<rparr>,
      \<lparr>i_devNum = - 2, i_time = Fin 1, i_msg = [0x90, 64, 100], i_tk = 0\<rparr>]"
proof -
  have q: "(snd (queueMessage DEV_LOOPBACK (Fin 1) 0 [0x90, 64, 100]
      (snd (queueMessage DEV_LOOPBACK (Fin 7) 0 [0x90, 62, 100]
      (snd (queueMessage DEV_LOOPBACK (NaN) 0 [0x90, 61, 100]
      (snd (queueMessage DEV_LOOPBACK (Fin 5) 0 [0x90, 60, 100]
      startup)))))))) =
     startup\<lparr>currentCount := 4, moEventQueue := [\<lparr>q_devNum = - 2, q_time = Fin 5, q_count = 0, q_msg = [0x90, 60, 100], q_tk = 0\<rparr>,
      \<lparr>q_devNum = - 2, q_time = NaN, q_count = 1, q_msg = [0x90, 61, 100], q_tk = 0\<rparr>,
      \<lparr>q_devNum = - 2, q_time = Fin 7, q_count = 2, q_msg = [0x90, 62, 100], q_tk = 0\<rparr>,
      \<lparr>q_devNum = - 2, q_time = Fin 1, q_count = 3, q_msg = [0x90, 64, 100], q_tk = 0\<rparr>]\<rparr>"
    by (simp add: queueMessage_def DEV_LOOPBACK_def startup_def enqueue_def push_heap_def Let_def
          sift_up.simps greater_elm_fin greater_elm_nan)
  have w: "window 0
     [\<lparr>q_devNum = - 2, q_time = Fin 5, q_count = 0, q_msg = [0x90, 60, 100], q_tk = 0\<rparr>,
      \<lparr>q_devNum = - 2, q_time = NaN, q_count = 1, q_msg = [0x90, 61, 100], q_tk = 0\<rparr>,
      \<lparr>q_devNum = - 2, q_time = Fin 7, q_count = 2, q_msg = [0x90, 62, 100], q_tk = 0\<rparr>,
      \<lparr>q_devNum = - 2, q_time = Fin 1, q_count = 3, q_msg = [0x90, 64, 100], q_tk = 0\<rparr>]"
    by (simp add: window_def seq_no_def)
  have d: "map_option miEventQueue (dispatch_loop (Fin 5) (Fin 5)
     (startup\<lparr>currentCount := 4, moEventQueue := [\<lparr>q_devNum = - 2, q_time = Fin 5, q_count = 0, q_msg = [0x90, 60, 100], q_tk = 0\<rparr>,
      \<lparr>q_devNum = - 2, q_time = NaN, q_count = 1, q_msg = [0x90, 61, 100], q_tk = 0\<rparr>,
      \<lparr>q_devNum = - 2, q_time = Fin 7, q_count = 2, q_msg = [0x90, 62, 100], q_tk = 0\<rparr>,
      \<lparr>q_devNum = - 2, q_time = Fin 1, q_count = 3, q_msg = [0x90, 64, 100], q_tk = 0\<rparr>]\<rparr>)) =
     Some [\<lparr>i_devNum = - 2, i_time = Fin 5, i_msg = [0x90, 60, 100], i_tk = 0\<rparr>,
      \<lparr>i_devNum = - 2, i_time = Fin 1, i_msg = [0x90, 64, 100], i_tk = 0\<rparr>]"
    by (simp add: dispatch_loop.simps dispatch_one_def MidiIn_enqueue_def DEV_LOOPBACK_def
          startup_def pop_heap_def sift_down.simps greater_elm_fin greater_elm_nan
          dle_def isnan_def Let_def)
  show ?thesis unfolding q using w d by simp
qed

section \<open>Properties of stopping and cancelling\<close>

lemma lessp_dev: "lessp a b \<Longrightarrow> k_devNum a \<le> k_devNum b"
  unfolding lessp_def by linarith

lemma lessp_tk: "lessp a b \<Longrightarrow> k_devNum a = k_devNum b \<Longrightarrow> k_tk a \<le> k_tk b"
  unfolding lessp_def by linarith

lemma lessp_ch:
  "lessp a b \<Longrightarrow> k_devNum a = k_devNum b \<Longrightarrow> k_tk a = k_tk b \<Longrightarrow> k_ch a \<le> k_ch b"
  unfolding lessp_def by linarith

lemma call_match_convex: "lessp_convex (call_match d t)"
  unfolding lessp_convex_def
proof (intro allI impI)
  fix a b c assume h: "lessp a b \<and> lessp b c \<and> call_match d t a \<and> call_match d t c"
  then have dv: "k_devNum a = d" "k_devNum c = d" by (simp_all add: call_match_def)
  from h have "k_devNum a \<le> k_devNum b" "k_devNum b \<le> k_devNum c"
    by (simp_all add: lessp_dev)
  with dv have db: "k_devNum b = d" by linarith
  show "call_match d t b"
  proof (cases "t = ALL_TRACKS")
    case True
    with db show ?thesis by (simp add: call_match_def)
  next
    case False
    with h have tk: "k_tk a = t" "k_tk c = t" by (simp_all add: call_match_def)
    from h dv db have "k_tk a \<le> k_tk b" "k_tk b \<le> k_tk c" by (simp_all add: lessp_tk)
    with tk have "k_tk b = t" by linarith
    with db show ?thesis by (simp add: call_match_def)
  qed
qed

lemma clear_match_convex: "lessp_convex (clear_match d t c)"
  unfolding lessp_convex_def
proof (intro allI impI)
  fix a b e assume h: "lessp a b \<and> lessp b e \<and> clear_match d t c a \<and> clear_match d t c e"
  then have dv: "k_devNum a = d" "k_devNum e = d" and tk: "k_tk a = t" "k_tk e = t"
    and ch: "k_ch a = c" "k_ch e = c"
    by (simp_all add: clear_match_def)
  from h have "k_devNum a \<le> k_devNum b" "k_devNum b \<le> k_devNum e"
    by (simp_all add: lessp_dev)
  with dv have db: "k_devNum b = d" by linarith
  from h dv db have "k_tk a \<le> k_tk b" "k_tk b \<le> k_tk e" by (simp_all add: lessp_tk)
  with tk have tb: "k_tk b = t" by linarith
  from h dv db tk tb have "k_ch a \<le> k_ch b" "k_ch b \<le> k_ch e" by (simp_all add: lessp_ch)
  with ch have "k_ch b = c" by linarith
  with db tb show "clear_match d t c b" by (simp add: clear_match_def)
qed

lemma clear_loop_phase2: "clear_loop P es i (Some a) (Some b) = (Some a, Some b)"
  by (induction es arbitrary: i) simp_all

lemma clear_loop_phase1:
  "clear_loop P es i (Some a) None =
     (Some a, if \<forall>e \<in> set es. P (fst e) then None
              else Some (i + length (takeWhile (\<lambda>e. P (fst e)) es)))"
  by (induction es arbitrary: i) (simp_all add: clear_loop_phase2)

lemma erase_range_phase0:
  "erase_range (pre @ es) (clear_loop P es (length pre) None None) =
     pre @ takeWhile (\<lambda>e. \<not> P (fst e)) es
         @ dropWhile (\<lambda>e. P (fst e)) (dropWhile (\<lambda>e. \<not> P (fst e)) es)"
proof (induction es arbitrary: pre)
  case Nil
  show ?case by (simp add: erase_range_def)
next
  case (Cons e es)
  show ?case
  proof (cases "P (fst e)")
    case False
    with Cons[of "pre @ [e]"] show ?thesis by simp
  next
    case True
    show ?thesis
    proof (cases "\<forall>x \<in> set es. P (fst x)")
      case all: True
      then have "dropWhile (\<lambda>e. P (fst e)) es = []" by simp
      with True all show ?thesis by (simp add: clear_loop_phase1 erase_range_def)
    next
      case False
      have "drop (length (takeWhile (\<lambda>e. P (fst e)) es)) es = dropWhile (\<lambda>e. P (fst e)) es"
        by (rule dropWhile_eq_drop[symmetric])
      with True False show ?thesis by (simp add: clear_loop_phase1 erase_range_def)
    qed
  qed
qed

lemma erase_range_first_run:
  "erase_range m (clear_loop P m 0 None None) =
     takeWhile (\<lambda>e. \<not> P (fst e)) m
       @ dropWhile (\<lambda>e. P (fst e)) (dropWhile (\<lambda>e. \<not> P (fst e)) m)"
  using erase_range_phase0[of "[]" m P] by simp

lemma after_run_filter:
  assumes "sorted_wrt lessp (map fst (p # xs))" "P (fst p)" "lessp_convex P"
  shows "dropWhile (\<lambda>e. P (fst e)) xs = filter (\<lambda>e. \<not> P (fst e)) xs"
  using assms(1)
proof (induction xs)
  case Nil
  show ?case by simp
next
  case (Cons x xs)
  show ?case
  proof (cases "P (fst x)")
    case True
    from Cons.prems have s: "sorted_wrt lessp (map fst (p # xs))" by auto
    have ih: "dropWhile (\<lambda>e. P (fst e)) xs = filter (\<lambda>e. \<not> P (fst e)) xs"
      by (rule Cons.IH[OF s])
    have "dropWhile (\<lambda>e. P (fst e)) (x # xs) = dropWhile (\<lambda>e. P (fst e)) xs"
      using True by simp
    moreover have "filter (\<lambda>e. \<not> P (fst e)) (x # xs) = filter (\<lambda>e. \<not> P (fst e)) xs"
      using True by simp
    ultimately show ?thesis using ih by (simp only:)
  next
    case False
    have rest: "\<forall>y \<in> set xs. \<not> P (fst y)"
    proof
      fix y assume y: "y \<in> set xs"
      from Cons.prems y have "lessp (fst p) (fst x)" "lessp (fst x) (fst y)" by auto
      with assms(2,3) False show "\<not> P (fst y)" unfolding lessp_convex_def by blast
    qed
    have "dropWhile (\<lambda>e. P (fst e)) (x # xs) = x # xs"
      using False by simp
    moreover have "filter (\<lambda>e. \<not> P (fst e)) xs = xs"
      using rest by (rule filter_id_conv[THEN iffD2])
    then have "filter (\<lambda>e. \<not> P (fst e)) (x # xs) = x # xs"
      using False by simp
    ultimately show ?thesis by (simp only:)
  qed
qed

lemma first_run_filter:
  assumes "sorted_wrt lessp (map fst m)" "lessp_convex P"
  shows "takeWhile (\<lambda>e. \<not> P (fst e)) m
           @ dropWhile (\<lambda>e. P (fst e)) (dropWhile (\<lambda>e. \<not> P (fst e)) m)
         = filter (\<lambda>e. \<not> P (fst e)) m"
  using assms(1)
proof (induction m)
  case Nil
  show ?case by simp
next
  case (Cons e m)
  show ?case
  proof (cases "P (fst e)")
    case False
    from Cons.prems have "sorted_wrt lessp (map fst m)" by simp
    then have "takeWhile (\<lambda>e. \<not> P (fst e)) m
           @ dropWhile (\<lambda>e. P (fst e)) (dropWhile (\<lambda>e. \<not> P (fst e)) m)
         = filter (\<lambda>e. \<not> P (fst e)) m"
      by (rule Cons.IH)
    with False show ?thesis by simp
  next
    case True
    have "dropWhile (\<lambda>e. P (fst e)) m = filter (\<lambda>e. \<not> P (fst e)) m"
      by (rule after_run_filter[OF Cons.prems True assms(2)])
    with True show ?thesis by simp
  qed
qed

lemma erase_range_filter:
  assumes "nm_sorted m" "lessp_convex P"
  shows "erase_range m (clear_loop P m 0 None None) = filter (\<lambda>e. \<not> P (fst e)) m"
  unfolding erase_range_first_run
  using assms by (simp only: nm_sorted_def first_run_filter)

lemma clearAndCall_loop_fst:
  "fst (clearAndCall_loop d t func m i p1 p2 w) = clear_loop (call_match d t) m i p1 p2"
  by (induction m arbitrary: i p1 p2 w) (auto simp: call_match_def)

lemma clearAndCall_loop_snd:
  "snd (clearAndCall_loop d t func m i p1 p2 w) =
     fold (\<lambda>e w. func d t (k_ch (fst e)) (k_n (fst e)) (snd e) w)
          (filter (\<lambda>e. call_match d t (fst e)) m) w"
  by (induction m arbitrary: i p1 p2 w) (auto simp: call_match_def)

lemma clearAndCall_sorted:
  assumes "nm_sorted m"
  shows "clearAndCall m d t func w =
     (filter (\<lambda>e. \<not> call_match d t (fst e)) m,
      fold (\<lambda>e w. func d t (k_ch (fst e)) (k_n (fst e)) (snd e) w)
           (filter (\<lambda>e. call_match d t (fst e)) m) w)"
  using erase_range_filter[OF assms call_match_convex, of d t]
  by (simp add: clearAndCall_def Let_def clearAndCall_loop_fst clearAndCall_loop_snd)

lemma clear_prefix_sorted:
  "nm_sorted m \<Longrightarrow> clear_prefix m d t c = filter (\<lambda>e. \<not> clear_match d t c (fst e)) m"
  by (simp add: clear_prefix_def erase_range_filter clear_match_convex)

lemma insert_nm_keys: "fst ` set (insert_nm k c m) = insert k (fst ` set m)"
proof (induction m)
  case Nil
  show ?case by simp
next
  case (Cons e m)
  obtain k' c' where e: "e = (k', c')" by (cases e)
  show ?case
  proof (cases "lessp k k'")
    case True
    with e show ?thesis by simp
  next
    case False
    show ?thesis
    proof (cases "lessp k' k")
      case True
      with False e Cons show ?thesis by auto
    next
      case f: False
      with False have "k = k'" by (rule lessp_total)
      with e show ?thesis by (auto simp: lessp_irrefl)
    qed
  qed
qed

lemma nm_sorted_insert: "nm_sorted m \<Longrightarrow> nm_sorted (insert_nm k c m)"
proof (induction m)
  case Nil
  show ?case by (simp add: nm_sorted_def)
next
  case (Cons e m)
  obtain k' c' where e: "e = (k', c')" by (cases e)
  from Cons.prems have sm: "nm_sorted m" and lt: "\<forall>x \<in> fst ` set m. lessp k' x"
    by (auto simp: nm_sorted_def e)
  show ?case
  proof (cases "lessp k k'")
    case True
    then have "\<forall>x \<in> fst ` set m. lessp k x" using lt lessp_trans by blast
    with True Cons.prems e show ?thesis by (auto simp: nm_sorted_def)
  next
    case False
    show ?thesis
    proof (cases "lessp k' k")
      case True
      have "\<forall>x \<in> fst ` set (insert_nm k c m). lessp k' x"
        using lt True by (simp add: insert_nm_keys)
      with Cons.IH[OF sm] True False e show ?thesis by (auto simp: nm_sorted_def)
    next
      case f: False
      with False e Cons.prems show ?thesis by simp
    qed
  qed
qed

lemma nm_sorted_assign: "nm_sorted m \<Longrightarrow> nm_sorted (assign_nm k c m)"
proof -
  have "map fst (assign_nm k c m) = map fst m" by (induction m) (auto simp: assign_nm_def)
  then show "nm_sorted m \<Longrightarrow> nm_sorted (assign_nm k c m)" by (simp add: nm_sorted_def)
qed

lemma nm_sorted_filter: "nm_sorted m \<Longrightarrow> nm_sorted (filter Q m)"
proof -
  assume "nm_sorted m"
  then have "sorted_wrt (\<lambda>a b. lessp (fst a) (fst b)) m"
    by (simp add: nm_sorted_def sorted_wrt_map)
  then have "sorted_wrt (\<lambda>a b. lessp (fst a) (fst b)) (filter Q m)"
    by (rule sorted_wrt_filter)
  then show ?thesis by (simp add: nm_sorted_def sorted_wrt_map)
qed

lemma nm_sorted_push: "nm_sorted m \<Longrightarrow> nm_sorted (snd (push m d t c n))"
  by (simp add: push_def Let_def nm_sorted_assign nm_sorted_insert)

lemma nm_sorted_pop: "nm_sorted m \<Longrightarrow> nm_sorted (snd (pop m d t c n))"
  by (simp add: pop_def Let_def erase_nm_def nm_sorted_assign nm_sorted_filter split: option.splits)

lemma clearAndCall_indep:
  "fst (clearAndCall m d t func w) = erase_range m (clear_loop (call_match d t) m 0 None None)"
  by (simp add: clearAndCall_def Let_def clearAndCall_loop_fst)

lemma reachable_sorted: "reachable m \<Longrightarrow> nm_sorted m"
proof (induction rule: reachable.induct)
  case reach_empty
  show ?case by (simp add: nm_sorted_def)
next
  case (reach_clear m)
  show ?case by (simp add: nm_sorted_def clear_all_def)
next
  case (reach_clear_prefix m d t c)
  then show ?case by (simp add: clear_prefix_sorted nm_sorted_filter)
next
  case (reach_clearAndCall m d t func w)
  then show ?case by (simp add: clearAndCall_sorted nm_sorted_filter)
qed (simp_all add: nm_sorted_push nm_sorted_pop set_nm_def nm_sorted_insert)

lemma cancelFunc_loop_frame:
  "sent (cancelFunc_loop k d c n st) = sent st @ replicate k (d, note_off_msg c n)
   \<and> midiOutHandles (cancelFunc_loop k d c n st) = midiOutHandles st
   \<and> cancelNoteMap (cancelFunc_loop k d c n st) = cancelNoteMap st"
proof (induction k arbitrary: st)
  case 0
  show ?case by simp
next
  case (Suc k)
  show ?case by (simp add: Suc Let_def midi_send_def note_off_msg_def)
qed

lemma cancelFunc_frame:
  "sent (cancelFunc d t (k_ch (fst e)) (k_n (fst e)) (snd e) st) = sent st @ cancel_msgs d e
   \<and> midiOutHandles (cancelFunc d t (k_ch (fst e)) (k_n (fst e)) (snd e) st) = midiOutHandles st
   \<and> cancelNoteMap (cancelFunc d t (k_ch (fst e)) (k_n (fst e)) (snd e) st) = cancelNoteMap st"
  by (simp add: cancelFunc_def cancel_msgs_def cancelFunc_loop_frame midi_send_def control_msg_def)

lemma cancelFunc_fold_frame:
  "sent (fold (\<lambda>e w. cancelFunc d t (k_ch (fst e)) (k_n (fst e)) (snd e) w) es st)
      = sent st @ concat (map (cancel_msgs d) es)
   \<and> midiOutHandles (fold (\<lambda>e w. cancelFunc d t (k_ch (fst e)) (k_n (fst e)) (snd e) w) es st)
      = midiOutHandles st
   \<and> cancelNoteMap (fold (\<lambda>e w. cancelFunc d t (k_ch (fst e)) (k_n (fst e)) (snd e) w) es st)
      = cancelNoteMap st"
  by (induction es arbitrary: st) (simp_all add: cancelFunc_frame)

lemma all_off_fold_frame:
  "sent (fold (all_off_channel d) cs st) = sent st @ concat (map (all_off_msgs d) cs)
   \<and> midiOutHandles (fold (all_off_channel d) cs st) = midiOutHandles st
   \<and> cancelNoteMap (fold (all_off_channel d) cs st) = cancelNoteMap st"
  by (induction cs arbitrary: st)
     (simp_all add: all_off_channel_def all_off_msgs_def control_msg_def midi_send_def Let_def)

lemma call_match_all: "call_match d ALL_TRACKS k \<longleftrightarrow> k_devNum k = d"
  by (simp add: call_match_def)

lemma stop_device_frame:
  assumes "nm_sorted (cancelNoteMap st)"
  shows "sent (stop_device i st)
           = sent st @ (if midiOutHandles st ! i then stop_msgs (int i) (cancelNoteMap st) else [])
       \<and> midiOutHandles (stop_device i st) = midiOutHandles st
       \<and> cancelNoteMap (stop_device i st)
           = (if midiOutHandles st ! i
              then filter (\<lambda>e. k_devNum (fst e) \<noteq> int i) (cancelNoteMap st)
              else cancelNoteMap st)"
proof (cases "midiOutHandles st ! i")
  case False
  then show ?thesis by (simp add: stop_device_def)
next
  case True
  define w where "w = fold (\<lambda>e w. cancelFunc (int i) ALL_TRACKS (k_ch (fst e)) (k_n (fst e)) (snd e) w)
           (filter (\<lambda>e. k_devNum (fst e) = int i) (cancelNoteMap st)) st"
  define st1 where "st1 = w\<lparr>cancelNoteMap := filter (\<lambda>e. k_devNum (fst e) \<noteq> int i) (cancelNoteMap st)\<rparr>"
  have cc: "clearAndCall (cancelNoteMap st) (int i) ALL_TRACKS cancelFunc st
          = (filter (\<lambda>e. k_devNum (fst e) \<noteq> int i) (cancelNoteMap st), w)"
    by (simp add: clearAndCall_sorted[OF assms] call_match_all w_def)
  have sd: "stop_device i st = fold (all_off_channel (int i)) [0..<16] st1"
    using True unfolding stop_device_def cc st1_def by (simp add: Let_def)
  have wf: "sent w = sent st @ concat (map (cancel_msgs (int i))
                       (filter (\<lambda>e. k_devNum (fst e) = int i) (cancelNoteMap st)))"
           "midiOutHandles w = midiOutHandles st"
    unfolding w_def by (simp_all add: cancelFunc_fold_frame)
  have s1: "sent st1 = sent w" "midiOutHandles st1 = midiOutHandles w"
    "cancelNoteMap st1 = filter (\<lambda>e. k_devNum (fst e) \<noteq> int i) (cancelNoteMap st)"
    by (simp_all add: st1_def)
  show ?thesis
    unfolding sd using True by (simp add: all_off_fold_frame s1 wf stop_msgs_def)
qed

lemma stop_devices_frame:
  assumes "nm_sorted (cancelNoteMap st)" "n \<le> length (midiOutHandles st)"
  shows "sent (fold stop_device [0..<n] st)
           = sent st @ concat (map (\<lambda>i. if midiOutHandles st ! i
                                          then stop_msgs (int i) (cancelNoteMap st) else [])
                                  [0..<n])
       \<and> midiOutHandles (fold stop_device [0..<n] st) = midiOutHandles st
       \<and> cancelNoteMap (fold stop_device [0..<n] st)
           = filter (\<lambda>e. \<not> (\<exists>i<n. midiOutHandles st ! i \<and> k_devNum (fst e) = int i))
                    (cancelNoteMap st)"
  using assms(2)
proof (induction n)
  case 0
  show ?case by simp
next
  case (Suc n)
  define s where "s = fold stop_device [0..<n] st"
  from Suc have ih: "sent s = sent st @ concat (map (\<lambda>i. if midiOutHandles st ! i
                                          then stop_msgs (int i) (cancelNoteMap st) else [])
                                  [0..<n])"
    "midiOutHandles s = midiOutHandles st"
    "cancelNoteMap s = filter (\<lambda>e. \<not> (\<exists>i<n. midiOutHandles st ! i \<and> k_devNum (fst e) = int i))
                    (cancelNoteMap st)"
    by (simp_all add: s_def)
  have srt: "nm_sorted (cancelNoteMap s)" unfolding ih(3) using assms(1) by (rule nm_sorted_filter)
  have f: "fold stop_device [0..<Suc n] st = stop_device n s" by (simp add: s_def)
  have same: "filter (\<lambda>e. k_devNum (fst e) = int n) (cancelNoteMap s)
            = filter (\<lambda>e. k_devNum (fst e) = int n) (cancelNoteMap st)"
    unfolding ih(3) by (auto intro!: filter_cong)
  have sm: "stop_msgs (int n) (cancelNoteMap s) = stop_msgs (int n) (cancelNoteMap st)"
    by (simp add: stop_msgs_def same)
  have flt: "(if midiOutHandles st ! n
              then filter (\<lambda>e. k_devNum (fst e) \<noteq> int n) (cancelNoteMap s)
              else cancelNoteMap s)
           = filter (\<lambda>e. \<not> (\<exists>i<Suc n. midiOutHandles st ! i \<and> k_devNum (fst e) = int i))
                    (cancelNoteMap st)"
    unfolding ih(3) by (auto simp: less_Suc_eq intro!: filter_cong)
  show ?case
    unfolding f using stop_device_frame[OF srt, of n] flt
    by (simp add: ih(1,2) sm)
qed

text \<open>
  Claim C4. \<open>cancelNoteMap\<close> is a \<open>std::map\<close>, so its entries are in ascending order
  of their keys. After \<open>doStopAll\<close> the queue and both note maps are empty. The messages
  sent are, for every open device in ascending order: for each entry of the cancel map
  with that device, in the order of the map, one sustain-off when the note is \<open>-1\<close> and
  otherwise as many note-offs (note-on with velocity 0) as the pile count; and then, for
  each of the 16 channels, All-Notes-Off, Sustain 0 and All-Sound-Off. Nothing is sent
  for a device that is not open.
\<close>

theorem stop_all_effect:
  assumes "nm_sorted (cancelNoteMap st)"
  shows "moEventQueue (doStopAll st) = []
       \<and> retriggerNoteMap (doStopAll st) = []
       \<and> cancelNoteMap (doStopAll st) = []
       \<and> sent (doStopAll st)
           = sent st @ concat (map (\<lambda>i. if midiOutHandles st ! i
                                          then stop_msgs (int i) (cancelNoteMap st) else [])
                                  [0..<length (midiOutHandles st)])"
  using stop_devices_frame[OF assms order_refl]
  by (simp add: doStopAll_def Let_def clear_all_def)

lemma length_all_off: "length (concat (map (all_off_msgs d) cs)) = 3 * length cs"
  by (induction cs) (simp_all add: all_off_msgs_def)

theorem stop_all_effect_witness:
  "nm_sorted (cancelNoteMap (startup\<lparr>midiOutHandles := [True],
                                       cancelNoteMap := [(Key 0 7 1 (- 1), 1), (Key 0 7 1 60, 2)]\<rparr>))
   \<and> cancelNoteMap (doStopAll (startup\<lparr>midiOutHandles := [True],
                                       cancelNoteMap := [(Key 0 7 1 (- 1), 1), (Key 0 7 1 60, 2)]\<rparr>)) = []
   \<and> take 3 (sent (doStopAll (startup\<lparr>midiOutHandles := [True],
                                       cancelNoteMap := [(Key 0 7 1 (- 1), 1), (Key 0 7 1 60, 2)]\<rparr>)))
       = [(0, \<lparr>msg = [0xb1, 64, 0], isSysEx = False\<rparr>),
          (0, \<lparr>msg = [0x91, 60, 0], isSysEx = False\<rparr>),
          (0, \<lparr>msg = [0x91, 60, 0], isSysEx = False\<rparr>)]
   \<and> take 3 (drop 3 (sent (doStopAll (startup\<lparr>midiOutHandles := [True],
                                       cancelNoteMap := [(Key 0 7 1 (- 1), 1), (Key 0 7 1 60, 2)]\<rparr>))))
       = [(0, \<lparr>msg = [0xb0, 123, 0], isSysEx = False\<rparr>),
          (0, \<lparr>msg = [0xb0, 64, 0], isSysEx = False\<rparr>),
          (0, \<lparr>msg = [0xb0, 120, 0], isSysEx = False\<rparr>)]
   \<and> length (sent (doStopAll (startup\<lparr>midiOutHandles := [True],
                                       cancelNoteMap := [(Key 0 7 1 (- 1), 1), (Key 0 7 1 60, 2)]\<rparr>))) = 51"
proof -
  define st where "st = startup\<lparr>midiOutHandles := [True],
                                       cancelNoteMap := [(Key 0 7 1 (- 1), 1), (Key 0 7 1 60, 2)]\<rparr>"
  have h: "nm_sorted (cancelNoteMap st)"
    by (simp add: st_def startup_def nm_sorted_def lessp_def)
  have c: "concat (map (cancel_msgs 0) (filter (\<lambda>e. k_devNum (fst e) = 0) (cancelNoteMap st)))
         = [(0, \<lparr>msg = [0xb1, 64, 0], isSysEx = False\<rparr>),
            (0, \<lparr>msg = [0x91, 60, 0], isSysEx = False\<rparr>),
            (0, \<lparr>msg = [0x91, 60, 0], isSysEx = False\<rparr>)]"
    by (simp add: st_def startup_def cancel_msgs_def control_msg_def note_off_msg_def
          C_SUSTAIN_def numeral_2_eq_2)
  have u: "[0..<16] = 0 # [1..<16]" by (simp add: upt_conv_Cons)
  have a: "take 3 (concat (map (all_off_msgs 0) [0..<16]))
         = [(0, \<lparr>msg = [0xb0, 123, 0], isSysEx = False\<rparr>),
            (0, \<lparr>msg = [0xb0, 64, 0], isSysEx = False\<rparr>),
            (0, \<lparr>msg = [0xb0, 120, 0], isSysEx = False\<rparr>)]"
    unfolding u
    by (simp add: all_off_msgs_def control_msg_def C_SUSTAIN_def C_ALL_NOTES_OFF_def
          C_ALL_SOUND_OFF_def)
  have e: "sent (doStopAll st)
           = sent st @ concat (map (\<lambda>i. if midiOutHandles st ! i
                                          then stop_msgs (int i) (cancelNoteMap st) else [])
                                  [0..<length (midiOutHandles st)])"
    using stop_all_effect[OF h] by (elim conjE)
  have hs: "midiOutHandles st = [True]" "sent st = []" by (simp_all add: st_def startup_def)
  have s: "sent (doStopAll st)
         = [(0, \<lparr>msg = [0xb1, 64, 0], isSysEx = False\<rparr>),
            (0, \<lparr>msg = [0x91, 60, 0], isSysEx = False\<rparr>),
            (0, \<lparr>msg = [0x91, 60, 0], isSysEx = False\<rparr>)]
           @ concat (map (all_off_msgs 0) [0..<16])"
    unfolding e hs by (simp add: stop_msgs_def c)
  have m: "cancelNoteMap (doStopAll st) = []" using stop_all_effect[OF h] by simp
  have l: "length (sent (doStopAll st)) = 51" unfolding s by (simp add: length_all_off)
  from h m a l show ?thesis unfolding st_def[symmetric] by (simp add: s)
qed

lemma skip_kept_run:
  "\<forall>k. i \<le> k \<and> k < skip_kept P q i j \<longrightarrow> \<not> P (q ! nat k)"
proof (induction P q i j rule: skip_kept.induct)
  case (1 P q i j)
  show ?case
  proof (cases "i \<le> j \<and> \<not> P (q ! nat i)")
    case False
    then have "skip_kept P q i j = i" by (subst skip_kept.simps) auto
    then show ?thesis by (auto simp only:)
  next
    case True
    then have e: "skip_kept P q i j = skip_kept P q (i + 1) j" by (subst skip_kept.simps) simp
    show ?thesis
    proof (intro allI impI)
      fix k assume k: "i \<le> k \<and> k < skip_kept P q i j"
      show "\<not> P (q ! nat k)"
      proof (cases "k = i")
        case True
        with \<open>i \<le> j \<and> \<not> P (q ! nat i)\<close> show ?thesis by simp
      next
        case False
        with k have "i + 1 \<le> k \<and> k < skip_kept P q (i + 1) j" by (simp add: e)
        with "1.IH"[OF True] show ?thesis by blast
      qed
    qed
  qed
qed

lemma skip_dropped_run:
  "\<forall>k. skip_dropped P q i j < k \<and> k \<le> j \<longrightarrow> P (q ! nat k)"
proof (induction P q i j rule: skip_dropped.induct)
  case (1 P q i j)
  show ?case
  proof (cases "i \<le> j \<and> P (q ! nat j)")
    case False
    then have "skip_dropped P q i j = j" by (subst skip_dropped.simps) auto
    then show ?thesis by (auto simp only:)
  next
    case True
    then have e: "skip_dropped P q i j = skip_dropped P q i (j - 1)"
      by (subst skip_dropped.simps) simp
    show ?thesis
    proof (intro allI impI)
      fix k assume k: "skip_dropped P q i j < k \<and> k \<le> j"
      show "P (q ! nat k)"
      proof (cases "k = j")
        case True
        with \<open>i \<le> j \<and> P (q ! nat j)\<close> show ?thesis by simp
      next
        case False
        with k have "skip_dropped P q i (j - 1) < k \<and> k \<le> j - 1" by (simp add: e)
        with "1.IH"[OF True] show ?thesis by blast
      qed
    qed
  qed
qed

lemma partition_loop_correct:
  assumes "0 \<le> i" "j < int (length q)" "i \<le> j + 1"
      and "\<forall>k. 0 \<le> k \<and> k < i \<longrightarrow> \<not> P (q ! nat k)"
      and "\<forall>k. j < k \<and> k < int (length q) \<longrightarrow> P (q ! nat k)"
  shows "\<exists>q' i'. partition_loop P q i j = Some (q', i') \<and> mset q' = mset q \<and> partitioned P q' i'"
  using assms
proof (induction P q i j rule: partition_loop.induct)
  case (1 P q i j)
  define i' where "i' = skip_kept P q i j"
  define j' where "j' = skip_dropped P q i' j"
  have b1: "i \<le> i'" "i' \<le> j + 1"
    unfolding i'_def using skip_kept_bounds[of i P q j] "1.prems"(3) by blast+
  have b2: "j' \<le> j" "i' \<le> j' + 1"
    unfolding j'_def using skip_dropped_bounds[of P q i' j] b1(2) by blast+
  have kept: "\<forall>k. 0 \<le> k \<and> k < i' \<longrightarrow> \<not> P (q ! nat k)"
  proof (intro allI impI)
    fix k assume k: "0 \<le> k \<and> k < i'"
    show "\<not> P (q ! nat k)"
    proof (cases "k < i")
      case True
      with k "1.prems"(4) show ?thesis by blast
    next
      case False
      with k have "i \<le> k \<and> k < skip_kept P q i j" by (simp add: i'_def)
      with skip_kept_run[of i P q j] show ?thesis by blast
    qed
  qed
  have dropped: "\<forall>k. j' < k \<and> k < int (length q) \<longrightarrow> P (q ! nat k)"
  proof (intro allI impI)
    fix k assume k: "j' < k \<and> k < int (length q)"
    show "P (q ! nat k)"
    proof (cases "j < k")
      case True
      with k "1.prems"(5) show ?thesis by blast
    next
      case False
      with k have "skip_dropped P q i' j < k \<and> k \<le> j" by (simp add: j'_def)
      with skip_dropped_run[of P q i' j] show ?thesis by blast
    qed
  qed
  have guard: "\<not> (i < 0 \<or> int (length q) \<le> j)" using "1.prems"(1,2) by simp
  show ?case
  proof (cases "i' > j'")
    case True
    have res: "partition_loop P q i j = Some (q, i')"
      using guard True by (subst partition_loop.simps) (simp add: i'_def j'_def Let_def)
    have eq: "i' = j' + 1" using True b2(2) by simp
    have "partitioned P q i'"
      unfolding partitioned_def
    proof (intro conjI)
      show "0 \<le> i'" using b1(1) "1.prems"(1) by simp
      show "i' \<le> int (length q)" using b1(2) "1.prems"(2) by simp
      show "\<forall>k. 0 \<le> k \<and> k < i' \<longrightarrow> \<not> P (q ! nat k)" by (rule kept)
      show "\<forall>k. i' \<le> k \<and> k < int (length q) \<longrightarrow> P (q ! nat k)"
        using dropped eq by simp
    qed
    with res show ?thesis by simp
  next
    case False
    then have le: "i' \<le> j'" by simp
    define q1 where "q1 = q[nat j' := q ! nat i', nat i' := q ! nat j']"
    have res: "partition_loop P q i j = partition_loop P q1 i' j'"
      using guard False by (subst partition_loop.simps) (simp add: i'_def j'_def Let_def q1_def)
    have rng: "0 \<le> i'" "nat i' < length q" "nat j' < length q" "0 \<le> j'"
      using b1 b2 le "1.prems"(1,2) by simp_all
    have Pi: "P (q ! nat i')"
    proof -
      from le b2(1) have "skip_kept P q i j \<le> j" by (simp add: i'_def)
      then show ?thesis unfolding i'_def by (rule skip_kept_stops)
    qed
    have nPj: "\<not> P (q ! nat j')"
    proof -
      from le have "i' \<le> skip_dropped P q i' j" by (simp add: j'_def)
      then show ?thesis unfolding j'_def by (rule skip_dropped_stops)
    qed
    have len1: "length q1 = length q" by (simp add: q1_def)
    have ms1: "mset q1 = mset q" unfolding q1_def using rng by (simp add: mset_swap)
    have other: "\<And>k. k \<noteq> nat i' \<Longrightarrow> k \<noteq> nat j' \<Longrightarrow> q1 ! k = q ! k"
      by (simp add: q1_def)
    have p1: "0 \<le> i'" by (rule rng(1))
    have p2: "j' < int (length q1)" using rng(3,4) by (simp add: len1)
    have p3: "i' \<le> j' + 1" using le by simp
    have p4: "\<forall>k. 0 \<le> k \<and> k < i' \<longrightarrow> \<not> P (q1 ! nat k)"
    proof (intro allI impI)
      fix k assume k: "0 \<le> k \<and> k < i'"
      then have "nat k \<noteq> nat i'" using le by linarith
      moreover from k have "nat k \<noteq> nat j'" using le by linarith
      ultimately have "q1 ! nat k = q ! nat k" by (rule other)
      with kept k show "\<not> P (q1 ! nat k)" by simp
    qed
    have p5: "\<forall>k. j' < k \<and> k < int (length q1) \<longrightarrow> P (q1 ! nat k)"
    proof (intro allI impI)
      fix k assume k: "j' < k \<and> k < int (length q1)"
      then have "nat k \<noteq> nat i'" using le rng by linarith
      moreover from k have "nat k \<noteq> nat j'" using le rng by linarith
      ultimately have "q1 ! nat k = q ! nat k" by (rule other)
      with dropped k show "P (q1 ! nat k)" by (simp add: len1)
    qed
    have "\<exists>q' i''. partition_loop P q1 i' j' = Some (q', i'') \<and> mset q' = mset q1
                  \<and> partitioned P q' i''"
      using "1.IH"[OF guard i'_def j'_def False] p1 p2 p3 p4 p5 by (simp add: q1_def)
    with res ms1 show ?thesis by simp
  qed
qed

lemma partitioned_take:
  assumes "partitioned P q i"
  shows "mset (take (nat i) q) = filter_mset (\<lambda>x. \<not> P x) (mset q)"
proof -
  from assms have kept: "\<And>k. 0 \<le> k \<Longrightarrow> k < i \<Longrightarrow> \<not> P (q ! nat k)"
    and drp: "\<And>k. i \<le> k \<Longrightarrow> k < int (length q) \<Longrightarrow> P (q ! nat k)"
    and bnd: "0 \<le> i" "i \<le> int (length q)"
    unfolding partitioned_def by blast+
  have t: "\<forall>x \<in> set (take (nat i) q). \<not> P x"
  proof
    fix x assume "x \<in> set (take (nat i) q)"
    then obtain k where k: "k < length (take (nat i) q)" "take (nat i) q ! k = x"
      unfolding in_set_conv_nth by blast
    then have kk: "k < nat i" "q ! k = x" by simp_all
    have "\<not> P (q ! nat (int k))"
      by (rule kept) (use kk(1) in linarith)+
    with kk(2) show "\<not> P x" by simp
  qed
  have d: "\<forall>x \<in> set (drop (nat i) q). P x"
  proof
    fix x assume "x \<in> set (drop (nat i) q)"
    then obtain k where k: "k < length (drop (nat i) q)" "drop (nat i) q ! k = x"
      unfolding in_set_conv_nth by blast
    then have kk: "nat i + k < length q" "q ! (nat i + k) = x" by simp_all
    have "P (q ! nat (i + int k))"
      by (rule drp) (use kk(1) bnd in linarith)+
    moreover have "nat (i + int k) = nat i + k" using bnd(1) by linarith
    ultimately show "P x" using kk(2) by simp
  qed
  have f1: "filter (\<lambda>x. \<not> P x) (take (nat i) q) = take (nat i) q"
    using t by (rule filter_id_conv[THEN iffD2])
  have f2: "filter (\<lambda>x. \<not> P x) (drop (nat i) q) = []"
    using d by (simp only: filter_empty_conv) blast
  have "filter (\<lambda>x. \<not> P x) q
      = filter (\<lambda>x. \<not> P x) (take (nat i) q) @ filter (\<lambda>x. \<not> P x) (drop (nat i) q)"
    by (metis append_take_drop_id filter_append)
  then have "filter (\<lambda>x. \<not> P x) q = take (nat i) q" unfolding f1 f2 by simp
  then have "mset (take (nat i) q) = mset (filter (\<lambda>x. \<not> P x) q)" by simp
  then show ?thesis by (simp only: mset_filter)
qed


lemma set_make_heap: "set (make_heap cmp xs) = set xs"
  using mset_make_heap[of cmp xs] by (metis set_mset_mset)

lemma doCancelMessages_queue:
  "\<exists>q' i'. partition_loop (cancel_match d t) (moEventQueue st) 0
               (int (length (moEventQueue st)) - 1) = Some (q', i')
     \<and> mset (take (nat i') q')
         = filter_mset (\<lambda>e. \<not> cancel_match d t e) (mset (moEventQueue st))"
proof -
  have "\<exists>q' i'. partition_loop (cancel_match d t) (moEventQueue st) 0
               (int (length (moEventQueue st)) - 1) = Some (q', i')
     \<and> mset q' = mset (moEventQueue st) \<and> partitioned (cancel_match d t) q' i'"
  proof (rule partition_loop_correct)
    show "(0::int) \<le> 0" by simp
    show "int (length (moEventQueue st)) - 1 < int (length (moEventQueue st))" by simp
    show "0 \<le> int (length (moEventQueue st)) - 1 + 1" by simp
    show "\<forall>k. 0 \<le> k \<and> k < 0 \<longrightarrow> \<not> cancel_match d t (moEventQueue st ! nat k)"
      by (intro allI impI) linarith
    show "\<forall>k. int (length (moEventQueue st)) - 1 < k \<and> k < int (length (moEventQueue st))
            \<longrightarrow> cancel_match d t (moEventQueue st ! nat k)"
      by (intro allI impI) linarith
  qed
  then obtain q' i' where r: "partition_loop (cancel_match d t) (moEventQueue st) 0
               (int (length (moEventQueue st)) - 1) = Some (q', i')"
    and m: "mset q' = mset (moEventQueue st)" and p: "partitioned (cancel_match d t) q' i'"
    by blast
  from partitioned_take[OF p] m r show ?thesis by simp
qed

lemma cancelFunc_loop_queue:
  "moEventQueue (cancelFunc_loop k d c n st) = moEventQueue st"
proof (induction k arbitrary: st)
  case 0
  show ?case by simp
next
  case (Suc k)
  show ?case by (simp add: Suc Let_def midi_send_def)
qed

lemma cancelFunc_queue:
  "moEventQueue (cancelFunc d t c n k st) = moEventQueue st"
  by (simp add: cancelFunc_def cancelFunc_loop_queue midi_send_def)

lemma cancelFunc_fold_queue:
  "moEventQueue (fold (\<lambda>e w. cancelFunc d t (k_ch (fst e)) (k_n (fst e)) (snd e) w) es st)
     = moEventQueue st"
  by (induction es arbitrary: st) (simp_all add: cancelFunc_queue)

text \<open>
  Claim C5. \<open>doCancelMessages d t\<close> always returns. The queue afterwards holds, as a
  multiset, exactly the elements of the queue before that do not match, where an element
  matches when its device is \<open>d\<close> and its track is \<open>t\<close> (any track when \<open>t\<close> is
  \<open>ALL_TRACKS\<close>): every matching element is removed and every other element is retained
  with its multiplicity. \<open>std::make_heap\<close> requires a comparator that is a strict weak
  ordering of the elements; \<open>greater\<close> is one when the counters of the elements lie within
  half the counter range of some counter \<open>c0\<close> and no tick time is NaN, and then the queue
  afterwards is a heap. After \<open>doCancelMessages d ALL_TRACKS\<close> no element of device \<open>d\<close>
  is in the queue.

  The cancel map is touched only when \<open>d\<close> is the index of an open device. Then exactly
  the entries of device \<open>d\<close> and track \<open>t\<close> (any track for \<open>ALL_TRACKS\<close>) are erased,
  and for each of them, in the order of the map, one sustain-off or as many note-offs as
  the pile count are sent. When \<open>d\<close> is negative, beyond the handle table or closed, the
  cancel map and the messages sent are unchanged. The hypothesis is the representation
  invariant of \<open>std::map\<close>: the entries are in ascending order of their keys.
\<close>

theorem cancel_messages_effect:
  assumes "nm_sorted (cancelNoteMap st)"
  shows "\<exists>st'. doCancelMessages d t st = Some st'
     \<and> mset (moEventQueue st')
         = filter_mset (\<lambda>e. \<not> cancel_match d t e) (mset (moEventQueue st))
     \<and> (window c0 (moEventQueue st) \<and> no_nan (moEventQueue st)
          \<longrightarrow> is_heap greater_elm (moEventQueue st'))
     \<and> (t = ALL_TRACKS \<longrightarrow> (\<forall>e \<in> set (moEventQueue st'). q_devNum e \<noteq> d))
     \<and> (0 \<le> d \<and> d < int (length (midiOutHandles st)) \<and> midiOutHandles st ! nat d \<longrightarrow>
          cancelNoteMap st' = filter (\<lambda>e. \<not> call_match d t (fst e)) (cancelNoteMap st)
          \<and> (t = ALL_TRACKS \<longrightarrow> (\<forall>e \<in> set (cancelNoteMap st'). k_devNum (fst e) \<noteq> d))
          \<and> sent st' = sent st @ concat (map (cancel_msgs d)
                                     (filter (\<lambda>e. call_match d t (fst e)) (cancelNoteMap st))))
     \<and> (\<not> (0 \<le> d \<and> d < int (length (midiOutHandles st)) \<and> midiOutHandles st ! nat d) \<longrightarrow>
          cancelNoteMap st' = cancelNoteMap st \<and> sent st' = sent st)"
proof -
  obtain q' i' where r: "partition_loop (cancel_match d t) (moEventQueue st) 0
               (int (length (moEventQueue st)) - 1) = Some (q', i')"
    and m: "mset (take (nat i') q')
         = filter_mset (\<lambda>e. \<not> cancel_match d t e) (mset (moEventQueue st))"
    using doCancelMessages_queue[of d t st] by blast
  define h where "h = make_heap greater_elm (take (nat i') q')"
  define st1 where "st1 = st\<lparr>moEventQueue := h\<rparr>"
  have mh: "mset h = filter_mset (\<lambda>e. \<not> cancel_match d t e) (mset (moEventQueue st))"
    by (simp add: h_def mset_make_heap m)
  have sh: "set h \<subseteq> set (moEventQueue st)"
  proof
    fix x assume "x \<in> set h"
    then have "x \<in># mset h" by simp
    then show "x \<in> set (moEventQueue st)" unfolding mh by simp
  qed
  have heap: "window c0 (moEventQueue st) \<and> no_nan (moEventQueue st) \<longrightarrow> is_heap greater_elm h"
  proof
    assume wn: "window c0 (moEventQueue st) \<and> no_nan (moEventQueue st)"
    have "set (take (nat i') q') \<subseteq> set (moEventQueue st)"
      using sh by (simp add: h_def set_make_heap)
    then have "swo_on (set (take (nat i') q')) greater_elm"
      using greater_elm_swo[of c0 "moEventQueue st"] wn swo_on_subset by blast
    then show "is_heap greater_elm h" unfolding h_def by (rule make_heap_is_heap)
  qed
  have nod: "t = ALL_TRACKS \<longrightarrow> (\<forall>e \<in> set h. q_devNum e \<noteq> d)"
  proof (intro impI ballI)
    fix e assume t: "t = ALL_TRACKS" and "e \<in> set h"
    then have "e \<in># filter_mset (\<lambda>e. \<not> cancel_match d t e) (mset (moEventQueue st))"
      using mh by (metis set_mset_mset)
    then have "\<not> cancel_match d t e" by simp
    with t show "q_devNum e \<noteq> d" by (simp add: cancel_match_def)
  qed
  have dc: "doCancelMessages d t st =
      (if 0 \<le> d \<and> d < int (length (midiOutHandles st)) \<and> midiOutHandles st ! nat d
       then Some ((snd (clearAndCall (cancelNoteMap st1) d t cancelFunc st1))
                    \<lparr>cancelNoteMap := fst (clearAndCall (cancelNoteMap st1) d t cancelFunc st1)\<rparr>)
       else Some st1)"
    unfolding doCancelMessages_def r by (simp add: Let_def st1_def h_def)
  define opn where "opn \<longleftrightarrow> 0 \<le> d \<and> d < int (length (midiOutHandles st)) \<and> midiOutHandles st ! nat d"
  show ?thesis
  proof (cases opn)
    case False
    then have "doCancelMessages d t st = Some st1"
      unfolding opn_def by (simp only: dc if_False)
    moreover have "moEventQueue st1 = h" "cancelNoteMap st1 = cancelNoteMap st" "sent st1 = sent st"
      by (simp_all add: st1_def)
    ultimately show ?thesis unfolding opn_def[symmetric] using False mh heap nod by simp
  next
    case True
    then have True': "0 \<le> d \<and> d < int (length (midiOutHandles st)) \<and> midiOutHandles st ! nat d"
      by (simp add: opn_def)
    define w where "w = fold (\<lambda>e w. cancelFunc d t (k_ch (fst e)) (k_n (fst e)) (snd e) w)
           (filter (\<lambda>e. call_match d t (fst e)) (cancelNoteMap st)) st1"
    define st2 where "st2 = w\<lparr>cancelNoteMap := filter (\<lambda>e. \<not> call_match d t (fst e)) (cancelNoteMap st)\<rparr>"
    have s1: "nm_sorted (cancelNoteMap st1)" "cancelNoteMap st1 = cancelNoteMap st"
      "midiOutHandles st1 = midiOutHandles st" "sent st1 = sent st"
      using assms by (simp_all add: st1_def)
    have cc: "clearAndCall (cancelNoteMap st1) d t cancelFunc st1
          = (filter (\<lambda>e. \<not> call_match d t (fst e)) (cancelNoteMap st), w)"
      unfolding s1(2) w_def by (rule clearAndCall_sorted[OF assms])
    have res: "doCancelMessages d t st = Some st2"
      using True' by (simp add: dc cc st2_def)
    have qw: "moEventQueue w = moEventQueue st1"
      unfolding w_def by (rule cancelFunc_fold_queue)
    have sw: "sent w = sent st @ concat (map (cancel_msgs d)
                                     (filter (\<lambda>e. call_match d t (fst e)) (cancelNoteMap st)))"
      unfolding w_def by (simp add: cancelFunc_fold_frame s1(4))
    have f2: "moEventQueue st2 = moEventQueue w" "sent st2 = sent w"
      "cancelNoteMap st2 = filter (\<lambda>e. \<not> call_match d t (fst e)) (cancelNoteMap st)"
      by (simp_all add: st2_def)
    have noc: "t = ALL_TRACKS \<longrightarrow> (\<forall>e \<in> set (cancelNoteMap st2). k_devNum (fst e) \<noteq> d)"
      unfolding f2(3) by (simp add: call_match_def)
    have f3: "moEventQueue st2 = h" by (simp add: f2(1) qw st1_def)
    show ?thesis
      unfolding opn_def[symmetric] using res True mh heap nod noc sw f2(2,3) f3 by simp
  qed
qed


theorem cancel_messages_effect_witness:
  "nm_sorted (cancelNoteMap (startup\<lparr>midiOutHandles := [True, True],
       moEventQueue := [\<lparr>q_devNum = 0, q_time = Fin 1, q_count = 0, q_msg = [0x90, 60, 100], q_tk = 7\<rparr>,
                        \<lparr>q_devNum = 1, q_time = Fin 2, q_count = 1, q_msg = [0x90, 61, 100], q_tk = 7\<rparr>,
                        \<lparr>q_devNum = 0, q_time = Fin 3, q_count = 2, q_msg = [0x80, 60, 0], q_tk = 8\<rparr>],
       cancelNoteMap := [(Key 0 7 1 60, 2), (Key 1 7 0 61, 1)]\<rparr>))
   \<and> map_option moEventQueue (doCancelMessages 0 ALL_TRACKS (startup\<lparr>midiOutHandles := [True, True],
       moEventQueue := [\<lparr>q_devNum = 0, q_time = Fin 1, q_count = 0, q_msg = [0x90, 60, 100], q_tk = 7\<rparr>,
                        \<lparr>q_devNum = 1, q_time = Fin 2, q_count = 1, q_msg = [0x90, 61, 100], q_tk = 7\<rparr>,
                        \<lparr>q_devNum = 0, q_time = Fin 3, q_count = 2, q_msg = [0x80, 60, 0], q_tk = 8\<rparr>],
       cancelNoteMap := [(Key 0 7 1 60, 2), (Key 1 7 0 61, 1)]\<rparr>))
       = Some [\<lparr>q_devNum = 1, q_time = Fin 2, q_count = 1, q_msg = [0x90, 61, 100], q_tk = 7\<rparr>]
   \<and> map_option cancelNoteMap (doCancelMessages 0 ALL_TRACKS (startup\<lparr>midiOutHandles := [True, True],
       moEventQueue := [\<lparr>q_devNum = 0, q_time = Fin 1, q_count = 0, q_msg = [0x90, 60, 100], q_tk = 7\<rparr>,
                        \<lparr>q_devNum = 1, q_time = Fin 2, q_count = 1, q_msg = [0x90, 61, 100], q_tk = 7\<rparr>,
                        \<lparr>q_devNum = 0, q_time = Fin 3, q_count = 2, q_msg = [0x80, 60, 0], q_tk = 8\<rparr>],
       cancelNoteMap := [(Key 0 7 1 60, 2), (Key 1 7 0 61, 1)]\<rparr>))
       = Some [(Key 1 7 0 61, 1)]
   \<and> map_option sent (doCancelMessages 0 ALL_TRACKS (startup\<lparr>midiOutHandles := [True, True],
       moEventQueue := [\<lparr>q_devNum = 0, q_time = Fin 1, q_count = 0, q_msg = [0x90, 60, 100], q_tk = 7\<rparr>,
                        \<lparr>q_devNum = 1, q_time = Fin 2, q_count = 1, q_msg = [0x90, 61, 100], q_tk = 7\<rparr>,
                        \<lparr>q_devNum = 0, q_time = Fin 3, q_count = 2, q_msg = [0x80, 60, 0], q_tk = 8\<rparr>],
       cancelNoteMap := [(Key 0 7 1 60, 2), (Key 1 7 0 61, 1)]\<rparr>))
       = Some [(0, \<lparr>msg = [0x91, 60, 0], isSysEx = False\<rparr>),
               (0, \<lparr>msg = [0x91, 60, 0], isSysEx = False\<rparr>)]"
proof -
  define e1 where "e1 = \<lparr>q_devNum = 0, q_time = Fin 1, q_count = 0, q_msg = [0x90, 60, 100], q_tk = 7\<rparr>"
  define e2 where "e2 = \<lparr>q_devNum = 1, q_time = Fin 2, q_count = 1, q_msg = [0x90, 61, 100], q_tk = 7\<rparr>"
  define e3 where "e3 = \<lparr>q_devNum = 0, q_time = Fin 3, q_count = 2, q_msg = [0x80, 60, 0], q_tk = 8\<rparr>"
  define st where "st = startup\<lparr>midiOutHandles := [True, True], moEventQueue := [e1, e2, e3],
       cancelNoteMap := [(Key 0 7 1 60, 2), (Key 1 7 0 61, 1)]\<rparr>"
  have h: "nm_sorted (cancelNoteMap st)"
    by (simp add: st_def startup_def nm_sorted_def lessp_def)
  have opn: "0 \<le> (0::int) \<and> (0::int) < int (length (midiOutHandles st)) \<and> midiOutHandles st ! nat 0"
    by (simp add: st_def)
  have q: "filter_mset (\<lambda>e. \<not> cancel_match 0 ALL_TRACKS e) (mset (moEventQueue st)) = {#e2#}"
    by (simp add: st_def cancel_match_def e1_def e2_def e3_def)
  have m: "filter (\<lambda>e. \<not> call_match 0 ALL_TRACKS (fst e)) (cancelNoteMap st) = [(Key 1 7 0 61, 1)]"
    by (simp add: st_def call_match_def)
  have c: "concat (map (cancel_msgs 0) (filter (\<lambda>e. call_match 0 ALL_TRACKS (fst e)) (cancelNoteMap st)))
         = [(0, \<lparr>msg = [0x91, 60, 0], isSysEx = False\<rparr>),
            (0, \<lparr>msg = [0x91, 60, 0], isSysEx = False\<rparr>)]"
    by (simp add: st_def call_match_def cancel_msgs_def note_off_msg_def numeral_2_eq_2)
  have s0: "sent st = []" by (simp add: st_def startup_def)
  obtain st' where r: "doCancelMessages 0 ALL_TRACKS st = Some st'"
    and rq: "mset (moEventQueue st') = {#e2#}"
    and rm: "cancelNoteMap st' = [(Key 1 7 0 61, 1)]"
    and rs: "sent st' = [(0, \<lparr>msg = [0x91, 60, 0], isSysEx = False\<rparr>),
                         (0, \<lparr>msg = [0x91, 60, 0], isSysEx = False\<rparr>)]"
    using cancel_messages_effect[OF h, of 0 ALL_TRACKS 0] opn unfolding q m c s0 by auto
  from rq have "moEventQueue st' = [e2]" by (metis mset_single_iff_right mset.simps(1) mset_zero_iff)
  with r rm rs h show ?thesis
    unfolding st_def e1_def e2_def e3_def by simp
qed

text \<open>
  The cancel map can keep entries of device \<open>d\<close> after \<open>doCancelMessages d ALL_TRACKS\<close>:
  device 0 is opened, a note-on of track 7 is sent to it, which stores the key
  \<open>(0, 7, 0, 60)\<close> in the cancel map, and the device is closed, which leaves the map as
  it is. \<open>doCancelMessages 0 ALL_TRACKS\<close> then finds the handle null and skips
  \<open>clearAndCall\<close>.
\<close>

theorem cancel_messages_effect_counterexample:
  "midiOutSendMessage 0 7 \<lparr>msg = [0x90, 60, 100], isSysEx = False\<rparr> (snd (openDevice 0 1 True startup))
     = Some (startup\<lparr>midiOutHandles := [True], retriggerNoteMap := [(Key 0 0 0 60, 1)],
                     cancelNoteMap := [(Key 0 7 0 60, 1)],
                     sent := [(0, \<lparr>msg = [0x90, 60, 100], isSysEx = False\<rparr>)]\<rparr>)
   \<and> map_option cancelNoteMap
       (doCancelMessages 0 ALL_TRACKS
          (closeDevice 0 (startup\<lparr>midiOutHandles := [True], retriggerNoteMap := [(Key 0 0 0 60, 1)],
                     cancelNoteMap := [(Key 0 7 0 60, 1)],
                     sent := [(0, \<lparr>msg = [0x90, 60, 100], isSysEx = False\<rparr>)]\<rparr>)))
       = Some [(Key 0 7 0 60, 1)]"
  by (simp add: midiOutSendMessage_def openDevice_def closeDevice_def startup_def doCancelMessages_def
        partition_loop.simps skip_kept.simps skip_dropped.simps make_heap_def Let_def push_def
        find_nm_def assign_nm_def midi_send_def pile_def lessp_def)
end
